theory Spec2Isabelle
  imports Main "HOL-Library.Product_Lexorder"
begin

section \<open>Data model\<close>

text \<open>
  The program is a Python module with two classes, \<^verbatim>\<open>MazeGenerator\<close> and
  \<^verbatim>\<open>MazeSolver\<close>, over numpy arrays. Python integers are unbounded, so
  every integer of the program is an \<^typ>\<open>int\<close>. A cell is a pair of
  integers, as the tuples of the source are.

  The exceptions the program can raise are values: \<^verbatim>\<open>np.zeros\<close> raises
  \<^verbatim>\<open>ValueError\<close> for a negative dimension, an array access outside the
  shape raises \<^verbatim>\<open>IndexError\<close>, a dictionary lookup of a missing key raises
  \<^verbatim>\<open>KeyError\<close>, and the interpreter raises \<^verbatim>\<open>RecursionError\<close> when the
  call depth exceeds its limit.
\<close>

datatype error = ValueError | IndexError | KeyError | RecursionError

type_synonym cell = "int \<times> int"

text \<open>
  A two-dimensional numpy array is its shape (rows, columns) and its rows.
  \<^term>\<open>item a i j\<close> is the read \<^verbatim>\<open>a[i, j]\<close> at indices that lie inside the
  shape: both reads of the source, \<^verbatim>\<open>self.maze[nx, ny]\<close> in the solver and
  \<^verbatim>\<open>self.visited[ny, nx]\<close> in the generator, come after a bounds test in the
  same short-circuit condition, so they cannot raise.
\<close>

record 'a ndarray =
  shape :: "nat \<times> nat"
  rows :: "'a list list"

definition item :: "'a ndarray \<Rightarrow> int \<Rightarrow> int \<Rightarrow> 'a" where
  "item a i j = rows a ! nat i ! nat j"

text \<open>
  Allocation and element assignment. \<^verbatim>\<open>np.zeros((h, w))\<close> raises for a
  negative dimension. An index \<^term>\<open>i\<close> along an axis of size \<^term>\<open>n\<close> is valid
  when \<^prop>\<open>- int n \<le> i \<and> i < int n\<close>, a negative index counting from the end;
  any other index raises.
\<close>

definition np_zeros :: "int \<Rightarrow> int \<Rightarrow> 'a \<Rightarrow> error + 'a ndarray" where
  "np_zeros h w z =
     (if h < 0 \<or> w < 0 then Inl ValueError
      else Inr \<lparr>shape = (nat h, nat w), rows = replicate (nat h) (replicate (nat w) z)\<rparr>)"

definition np_index :: "nat \<Rightarrow> int \<Rightarrow> nat option" where
  "np_index n i =
     (if 0 \<le> i \<and> i < int n then Some (nat i)
      else if - int n \<le> i \<and> i < 0 then Some (nat (i + int n))
      else None)"

definition np_set :: "'a ndarray \<Rightarrow> int \<Rightarrow> int \<Rightarrow> 'a \<Rightarrow> error + 'a ndarray" where
  "np_set a i j v =
     (case np_index (fst (shape a)) i of
        None \<Rightarrow> Inl IndexError
      | Some r \<Rightarrow>
          (case np_index (snd (shape a)) j of
             None \<Rightarrow> Inl IndexError
           | Some c \<Rightarrow> Inr (a\<lparr>rows := (rows a)[r := (rows a ! r)[c := v]]\<rparr>)))"

section \<open>MazeSolver\<close>

text \<open>
  The solver object holds the array it was given and the two components of
  its shape.
\<close>

record MazeSolver =
  solver_maze :: "int ndarray"
  solver_height :: int
  solver_width :: int

definition MazeSolver_init :: "int ndarray \<Rightarrow> MazeSolver" where
  "MazeSolver_init m =
     \<lparr>solver_maze = m, solver_height = int (fst (shape m)), solver_width = int (snd (shape m))\<rparr>"

definition heuristic :: "cell \<Rightarrow> cell \<Rightarrow> int" where
  "heuristic a b = \<bar>fst a - fst b\<bar> + \<bar>snd a - snd b\<bar>"

text \<open>
  \<^verbatim>\<open>get_neighbors\<close> tries the four directions in the order of the source
  and keeps a neighbour when it lies inside the grid and its array entry is
  not \<^term>\<open>0::int\<close>; \<^term>\<open>passable self n\<close> is that condition.
\<close>

definition passable :: "MazeSolver \<Rightarrow> cell \<Rightarrow> bool" where
  "passable self n =
     (0 \<le> fst n \<and> fst n < solver_height self \<and>
      0 \<le> snd n \<and> snd n < solver_width self \<and>
      item (solver_maze self) (fst n) (snd n) \<noteq> 0)"

definition get_neighbors :: "MazeSolver \<Rightarrow> cell \<Rightarrow> cell list" where
  "get_neighbors self current =
     filter (passable self)
       (map (\<lambda>(dx, dy). (fst current + dx, snd current + dy)) [(0, 1), (1, 0), (0, -1), (-1, 0)])"

text \<open>
  The search bookkeeping of one call: the priority queue and the three
  dictionaries. The queue holds pairs of a priority and a cell. It is kept as
  a sorted list: \<^verbatim>\<open>put\<close> inserts in order and \<^verbatim>\<open>get\<close> takes the head, which
  is the least pair in the lexicographic order of tuples, the pair that the
  heap-based queue of the source hands out.
\<close>

record astar_state =
  open_set :: "(int \<times> cell) list"
  came_from :: "cell \<rightharpoonup> cell"
  g_score :: "cell \<rightharpoonup> int"
  f_score :: "cell \<rightharpoonup> int"

text \<open>
  The loop over the neighbours of \<^term>\<open>current\<close>. The lookup
  \<^verbatim>\<open>g_score[current]\<close> raises when the key is missing; the test
  \<^verbatim>\<open>neighbor not in g_score or ...\<close> short-circuits.
\<close>

fun relax_neighbors :: "cell \<Rightarrow> cell \<Rightarrow> cell list \<Rightarrow> astar_state \<Rightarrow> error + astar_state" where
  "relax_neighbors goal current [] st = Inr st"
| "relax_neighbors goal current (neighbor # rest) st =
     (case g_score st current of
        None \<Rightarrow> Inl KeyError
      | Some gc \<Rightarrow>
          let tentative_g_score = gc + 1 in
          if (case g_score st neighbor of None \<Rightarrow> True | Some gn \<Rightarrow> tentative_g_score < gn)
          then relax_neighbors goal current rest
                 (st\<lparr>came_from := (came_from st)(neighbor \<mapsto> current),
                     g_score := (g_score st)(neighbor \<mapsto> tentative_g_score),
                     f_score := (f_score st)(neighbor \<mapsto> tentative_g_score + heuristic neighbor goal),
                     open_set := insort (tentative_g_score + heuristic neighbor goal, neighbor) (open_set st)\<rparr>)
          else relax_neighbors goal current rest st)"

text \<open>
  The inner loop that follows the back-pointers from the goal, appending to
  \<^term>\<open>path\<close>. The result \<^term>\<open>None\<close> of this function stands for a loop that
  never ends.
\<close>

partial_function (option) reconstruct_path ::
  "(cell \<rightharpoonup> cell) \<Rightarrow> cell \<Rightarrow> cell list \<Rightarrow> cell list option" where
  "reconstruct_path cf current path =
     (case cf current of
        None \<Rightarrow> Some path
      | Some prev \<Rightarrow> reconstruct_path cf prev (path @ [current]))"

text \<open>
  The main loop. A call returns a pair: what the call yields (an exception,
  the absent value \<^verbatim>\<open>None\<close>, or a path) and the solver object after the
  call. The outer \<^term>\<open>None\<close> stands for a loop that never ends.
\<close>

partial_function (option) a_star_loop ::
  "MazeSolver \<Rightarrow> cell \<Rightarrow> cell \<Rightarrow> astar_state \<Rightarrow> ((error + cell list option) \<times> MazeSolver) option" where
  "a_star_loop self start goal st =
     (case open_set st of
        [] \<Rightarrow> Some (Inr None, self)
      | entry # rest \<Rightarrow>
          let current = snd entry in
          if current = goal then
            (case reconstruct_path (came_from st) current [] of
               None \<Rightarrow> None
             | Some path \<Rightarrow> Some (Inr (Some (rev (path @ [start]))), self))
          else
            (case relax_neighbors goal current (get_neighbors self current) (st\<lparr>open_set := rest\<rparr>) of
               Inl e \<Rightarrow> Some (Inl e, self)
             | Inr st' \<Rightarrow> a_star_loop self start goal st'))"

text \<open>
  The parameter \<^verbatim>\<open>end\<close> defaults to \<^verbatim>\<open>None\<close>, which stands for the
  bottom-right corner; \<^verbatim>\<open>start\<close> is passed by the caller (the source's
  default is \<^term>\<open>(0::int, 0::int)\<close>).
\<close>

definition a_star_solve ::
  "MazeSolver \<Rightarrow> cell \<Rightarrow> cell option \<Rightarrow> ((error + cell list option) \<times> MazeSolver) option" where
  "a_star_solve self start end_arg =
     (let goal = (case end_arg of
                    None \<Rightarrow> (solver_height self - 1, solver_width self - 1)
                  | Some e \<Rightarrow> e)
      in a_star_loop self start goal
           \<lparr>open_set = insort (0, start) [],
            came_from = Map.empty,
            g_score = [start \<mapsto> 0],
            f_score = [start \<mapsto> heuristic start goal]\<rparr>)"

section \<open>MazeGenerator\<close>

text \<open>
  The generator object. The process-wide random source of the
  \<^verbatim>\<open>random\<close> module is a state of an arbitrary type \<^typ>\<open>'r\<close>, threaded
  through the calls. The two operations of the module that the generator
  uses are parameters: \<^term>\<open>seed n\<close> is the state after
  \<^verbatim>\<open>random.seed(n)\<close>, and \<^term>\<open>shuffle rng xs\<close> is the shuffled list
  together with the state after \<^verbatim>\<open>random.shuffle(xs)\<close>.
\<close>

record MazeGenerator =
  gen_width :: int
  gen_height :: int
  gen_maze :: "int ndarray"
  gen_visited :: "bool ndarray"
  gen_start :: cell
  gen_end :: cell

text \<open>
  The constructor allocates both arrays, so it raises for a negative
  dimension.
\<close>

definition MazeGenerator_init :: "int \<Rightarrow> int \<Rightarrow> error + MazeGenerator" where
  "MazeGenerator_init w h =
     (case np_zeros h w 0 of
        Inl e \<Rightarrow> Inl e
      | Inr m \<Rightarrow>
          (case np_zeros h w False of
             Inl e \<Rightarrow> Inl e
           | Inr v \<Rightarrow>
               Inr \<lparr>gen_width = w, gen_height = h, gen_maze = m, gen_visited = v,
                    gen_start = (0, 0), gen_end = (h - 1, w - 1)\<rparr>))"

text \<open>
  \<^verbatim>\<open>_carve_passages_from\<close> and the loop over its shuffled directions. In the
  generator \<^term>\<open>cx\<close> is a column and \<^term>\<open>cy\<close> a row. The first argument
  after \<^term>\<open>shuffle\<close> is the call depth still available: a call at depth
  \<^term>\<open>0::nat\<close> raises \<^verbatim>\<open>RecursionError\<close>, as the interpreter does at its
  recursion limit. The division \<^verbatim>\<open>//\<close> of Python rounds towards minus
  infinity, as \<open>div\<close> on integers does.
\<close>

fun carve_passages_from ::
    "('r \<Rightarrow> cell list \<Rightarrow> cell list \<times> 'r) \<Rightarrow> nat \<Rightarrow> int \<Rightarrow> int \<Rightarrow> MazeGenerator \<times> 'r
       \<Rightarrow> error + MazeGenerator \<times> 'r"
  and carve_directions ::
    "('r \<Rightarrow> cell list \<Rightarrow> cell list \<times> 'r) \<Rightarrow> nat \<Rightarrow> int \<Rightarrow> int \<Rightarrow> cell list \<Rightarrow> MazeGenerator \<times> 'r
       \<Rightarrow> error + MazeGenerator \<times> 'r" where
  "carve_passages_from shuffle 0 cx cy s = Inl RecursionError"
| "carve_passages_from shuffle (Suc depth) cx cy s =
     (let (directions, rng) = shuffle (snd s) [(0, 2), (2, 0), (0, -2), (-2, 0)]
      in carve_directions shuffle depth cx cy directions (fst s, rng))"
| "carve_directions shuffle depth cx cy [] s = Inr s"
| "carve_directions shuffle depth cx cy (d # rest) s =
     (let self = fst s; nx = cx + fst d; ny = cy + snd d in
      if 0 \<le> nx \<and> nx < gen_width self \<and> 0 \<le> ny \<and> ny < gen_height self \<and> \<not> item (gen_visited self) ny nx
      then
        (case np_set (gen_visited self) ny nx True of
           Inl e \<Rightarrow> Inl e
         | Inr v1 \<Rightarrow>
        (case np_set (gen_maze self) (cy + snd d div 2) (cx + fst d div 2) 1 of
           Inl e \<Rightarrow> Inl e
         | Inr m1 \<Rightarrow>
        (case np_set m1 ny nx 1 of
           Inl e \<Rightarrow> Inl e
         | Inr m2 \<Rightarrow>
        (case carve_passages_from shuffle depth nx ny (self\<lparr>gen_maze := m2, gen_visited := v1\<rparr>, snd s) of
           Inl e \<Rightarrow> Inl e
         | Inr s' \<Rightarrow> carve_directions shuffle depth cx cy rest s'))))
      else carve_directions shuffle depth cx cy rest s)"

text \<open>
  \<^verbatim>\<open>generate_maze\<close> resets both arrays, seeds the random source with the
  constant 42, carves from the top-left cell and then writes 1 into the start
  and end cells. It returns the array \<^verbatim>\<open>self.maze\<close>; the result here also
  carries the object and the random source after the call.
\<close>

definition generate_maze ::
    "(int \<Rightarrow> 'r) \<Rightarrow> ('r \<Rightarrow> cell list \<Rightarrow> cell list \<times> 'r) \<Rightarrow> nat \<Rightarrow> MazeGenerator \<times> 'r
       \<Rightarrow> error + int ndarray \<times> MazeGenerator \<times> 'r" where
  "generate_maze seed shuffle limit s =
     (case np_zeros (gen_height (fst s)) (gen_width (fst s)) 0 of
        Inl e \<Rightarrow> Inl e
      | Inr m0 \<Rightarrow>
     (case np_zeros (gen_height (fst s)) (gen_width (fst s)) False of
        Inl e \<Rightarrow> Inl e
      | Inr v0 \<Rightarrow>
     (case np_set v0 0 0 True of
        Inl e \<Rightarrow> Inl e
      | Inr v1 \<Rightarrow>
     (case carve_passages_from shuffle limit 0 0 ((fst s)\<lparr>gen_maze := m0, gen_visited := v1\<rparr>, seed 42) of
        Inl e \<Rightarrow> Inl e
      | Inr s1 \<Rightarrow>
     (case np_set (gen_maze (fst s1)) (fst (gen_start (fst s1))) (snd (gen_start (fst s1))) 1 of
        Inl e \<Rightarrow> Inl e
      | Inr m1 \<Rightarrow>
     (case np_set m1 (fst (gen_end (fst s1))) (snd (gen_end (fst s1))) 1 of
        Inl e \<Rightarrow> Inl e
      | Inr m2 \<Rightarrow> Inr (m2, (fst s1)\<lparr>gen_maze := m2\<rparr>, snd s1)))))))"

section \<open>Specification vocabulary\<close>

subsection \<open>Routes and distances on a grid\<close>

text \<open>
  A cell is inside the grid when both coordinates are within the solver's
  height and width; it is a Path cell when it is inside and its entry is not
  \<^term>\<open>0::int\<close> (a Wall). Two cells are one unit step apart when they agree on
  one axis and differ by exactly one on the other. None of these refers to
  the solver's neighbour function.
\<close>

definition in_bounds :: "MazeSolver \<Rightarrow> cell \<Rightarrow> bool" where
  "in_bounds self c \<longleftrightarrow>
     0 \<le> fst c \<and> fst c < solver_height self \<and> 0 \<le> snd c \<and> snd c < solver_width self"

definition is_path_cell :: "MazeSolver \<Rightarrow> cell \<Rightarrow> bool" where
  "is_path_cell self c \<longleftrightarrow> in_bounds self c \<and> item (solver_maze self) (fst c) (snd c) \<noteq> 0"

definition unit_step :: "cell \<Rightarrow> cell \<Rightarrow> bool" where
  "unit_step a b \<longleftrightarrow>
     (fst a = fst b \<and> \<bar>snd a - snd b\<bar> = 1) \<or> (snd a = snd b \<and> \<bar>fst a - fst b\<bar> = 1)"

fun unit_steps :: "cell list \<Rightarrow> bool" where
  "unit_steps [] = True"
| "unit_steps [a] = True"
| "unit_steps (a # b # rest) = (unit_step a b \<and> unit_steps (b # rest))"

text \<open>
  A route from \<^term>\<open>a\<close> to \<^term>\<open>b\<close> is a non-empty list of cells that starts
  at \<^term>\<open>a\<close>, ends at \<^term>\<open>b\<close>, moves by unit steps, and consists of Path
  cells only, the first cell included. \<^term>\<open>grid_connected self a b\<close> says
  that such a route exists, and \<^term>\<open>shortest_length self a b\<close> is the least
  number of steps of such a route: the shortest-path length over
  4-directional unit-cost moves through non-Wall cells, which a breadth-first
  search over the Path cells computes.
\<close>

definition grid_route :: "MazeSolver \<Rightarrow> cell \<Rightarrow> cell \<Rightarrow> cell list \<Rightarrow> bool" where
  "grid_route self a b q \<longleftrightarrow>
     q \<noteq> [] \<and> hd q = a \<and> last q = b \<and> unit_steps q \<and> list_all (is_path_cell self) q"

definition grid_connected :: "MazeSolver \<Rightarrow> cell \<Rightarrow> cell \<Rightarrow> bool" where
  "grid_connected self a b \<longleftrightarrow> (\<exists>q. grid_route self a b q)"

definition shortest_length :: "MazeSolver \<Rightarrow> cell \<Rightarrow> cell \<Rightarrow> nat" where
  "shortest_length self a b = (LEAST k. \<exists>q. grid_route self a b q \<and> length q = Suc k)"

text \<open>
  The goal of a call, and the bookkeeping the call starts from.
\<close>

definition goal_of :: "MazeSolver \<Rightarrow> cell option \<Rightarrow> cell" where
  "goal_of self end_arg =
     (case end_arg of None \<Rightarrow> (solver_height self - 1, solver_width self - 1) | Some e \<Rightarrow> e)"

definition initial_state :: "cell \<Rightarrow> cell \<Rightarrow> astar_state" where
  "initial_state start goal =
     \<lparr>open_set = insort (0, start) [], came_from = Map.empty,
      g_score = [start \<mapsto> 0], f_score = [start \<mapsto> heuristic start goal]\<rparr>"

subsection \<open>Invariants of the search loop\<close>

text \<open>
  A walk is a list of cells in which each cell is followed by one of the
  neighbours \<^verbatim>\<open>get_neighbors\<close> returns for it. The invariants are stated
  over walks; walks are related to routes further down.
\<close>

fun walk :: "MazeSolver \<Rightarrow> cell list \<Rightarrow> bool" where
  "walk self [] = True"
| "walk self [c] = True"
| "walk self (c # n # rest) = (n \<in> set (get_neighbors self c) \<and> walk self (n # rest))"

text \<open>
  \<^term>\<open>improve goal current t n st\<close> is the state after the four assignments
  of the loop body for the neighbour \<^term>\<open>n\<close>, and \<^term>\<open>improves st t n\<close> is
  the test that guards them.
\<close>

definition improve :: "cell \<Rightarrow> cell \<Rightarrow> int \<Rightarrow> cell \<Rightarrow> astar_state \<Rightarrow> astar_state" where
  "improve goal current t neighbor st =
     st\<lparr>came_from := (came_from st)(neighbor \<mapsto> current),
        g_score := (g_score st)(neighbor \<mapsto> t),
        f_score := (f_score st)(neighbor \<mapsto> t + heuristic neighbor goal),
        open_set := insort (t + heuristic neighbor goal, neighbor) (open_set st)\<rparr>"

definition improves :: "astar_state \<Rightarrow> int \<Rightarrow> cell \<Rightarrow> bool" where
  "improves st t neighbor = (case g_score st neighbor of None \<Rightarrow> True | Some gn \<Rightarrow> t < gn)"

text \<open>
  The cells a search can ever record are the start and the Path cells. The
  first invariant says: the start has score 0; every recorded cell is one of
  those cells; every score is non-negative and below the number of recorded
  cells; every back-pointer \<^term>\<open>came_from st c = Some p\<close> leads from a cell
  other than the start to a cell \<^term>\<open>p\<close> of which \<^term>\<open>c\<close> is a neighbour and
  whose score is smaller by at least one; every recorded cell other than the
  start has a back-pointer; and every cell in the queue is recorded.
\<close>

definition cells_of :: "MazeSolver \<Rightarrow> cell \<Rightarrow> cell set" where
  "cells_of self start = insert start {c. passable self c}"

definition inv_basic :: "MazeSolver \<Rightarrow> cell \<Rightarrow> astar_state \<Rightarrow> bool" where
  "inv_basic self start st \<longleftrightarrow>
     g_score st start = Some 0 \<and>
     dom (g_score st) \<subseteq> cells_of self start \<and>
     (\<forall>c v. g_score st c = Some v \<longrightarrow> 0 \<le> v \<and> v < int (card (dom (g_score st)))) \<and>
     (\<forall>c p. came_from st c = Some p \<longrightarrow>
        c \<noteq> start \<and> c \<in> set (get_neighbors self p) \<and>
        (\<exists>gp gc. g_score st p = Some gp \<and> g_score st c = Some gc \<and> gp + 1 \<le> gc)) \<and>
     (\<forall>c. c \<in> dom (g_score st) \<longrightarrow> c \<noteq> start \<longrightarrow> c \<in> dom (came_from st)) \<and>
     (\<forall>e \<in> set (open_set st). snd e \<in> dom (g_score st))"

text \<open>
  The measure that decreases with every iteration of the main loop: twice
  the sum of the scores over all cells (an unrecorded cell counts as the
  number of cells), plus the length of the queue.
\<close>

fun weight :: "nat \<Rightarrow> int option \<Rightarrow> nat" where
  "weight B None = B"
| "weight B (Some v) = nat v"

definition potential :: "MazeSolver \<Rightarrow> cell \<Rightarrow> astar_state \<Rightarrow> nat" where
  "potential self start st =
     (\<Sum>c \<in> cells_of self start. weight (card (cells_of self start)) (g_score st c))"

definition loop_measure :: "MazeSolver \<Rightarrow> cell \<Rightarrow> astar_state \<Rightarrow> nat" where
  "loop_measure self start st = 2 * potential self start st + length (open_set st)"

text \<open>
  The second invariant carries optimality. A recorded cell is pending when
  the queue holds it with a priority of at most its score plus its heuristic;
  an edge from \<^term>\<open>c\<close> to \<^term>\<open>n\<close> is relaxed when the score of \<^term>\<open>n\<close> is
  at most the score of \<^term>\<open>c\<close> plus one. Between iterations every edge out of
  a recorded cell is relaxed or its source is pending; inside the loop over
  the neighbours of \<^term>\<open>cur\<close> the edges to the neighbours in \<^term>\<open>todo\<close> are
  still to be treated. The queue is sorted, and the priority of an entry other
  than the start is at least the score of its cell plus its heuristic.
\<close>

definition pending :: "cell \<Rightarrow> astar_state \<Rightarrow> cell \<Rightarrow> bool" where
  "pending goal st c \<longleftrightarrow>
     (\<exists>p gc. (p, c) \<in> set (open_set st) \<and> g_score st c = Some gc \<and> p \<le> gc + heuristic c goal)"

definition relaxed :: "astar_state \<Rightarrow> cell \<Rightarrow> cell \<Rightarrow> bool" where
  "relaxed st c n \<longleftrightarrow>
     (\<exists>gc gn. g_score st c = Some gc \<and> g_score st n = Some gn \<and> gn \<le> gc + 1)"

definition inv_opt :: "MazeSolver \<Rightarrow> cell \<Rightarrow> cell \<Rightarrow> cell \<Rightarrow> cell list \<Rightarrow> astar_state \<Rightarrow> bool" where
  "inv_opt self start goal cur todo st \<longleftrightarrow>
     sorted (open_set st) \<and>
     (\<forall>e \<in> set (open_set st).
        snd e = start \<or> (\<exists>gc. g_score st (snd e) = Some gc \<and> gc + heuristic (snd e) goal \<le> fst e)) \<and>
     (\<forall>c \<in> dom (g_score st). \<forall>n \<in> set (get_neighbors self c).
        pending goal st c \<or> relaxed st c n \<or> (c = cur \<and> n \<in> set todo))"

text \<open>
  What the search establishes about a path it returns: it is a walk from
  the start to the goal, every cell after the first is passable, and no walk
  from the start to the goal is shorter.
\<close>

definition shortest_walk :: "MazeSolver \<Rightarrow> cell \<Rightarrow> cell \<Rightarrow> cell list \<Rightarrow> bool" where
  "shortest_walk self start goal path \<longleftrightarrow>
     path \<noteq> [] \<and> hd path = start \<and> last path = goal \<and> walk self path \<and>
     (\<forall>c \<in> set (tl path). passable self c) \<and>
     (\<forall>q. q \<noteq> [] \<and> hd q = start \<and> last q = goal \<and> walk self q \<longrightarrow> length path \<le> length q)"

subsection \<open>Invariants of the carving\<close>

text \<open>
  An array is well formed when its rows agree with its shape.
  \<^term>\<open>put a i j v\<close> is the array after a write inside the shape, and
  \<^term>\<open>unvisited a\<close> counts the entries of a boolean array that are
  \<^term>\<open>False\<close>.
\<close>

definition wf_ndarray :: "nat \<Rightarrow> nat \<Rightarrow> 'a ndarray \<Rightarrow> bool" where
  "wf_ndarray h w a \<longleftrightarrow>
     shape a = (h, w) \<and> length (rows a) = h \<and> (\<forall>row \<in> set (rows a). length row = w)"

definition put :: "'a ndarray \<Rightarrow> int \<Rightarrow> int \<Rightarrow> 'a \<Rightarrow> 'a ndarray" where
  "put a i j v = a\<lparr>rows := (rows a)[nat i := (rows a ! nat i)[nat j := v]]\<rparr>"

definition unvisited :: "bool ndarray \<Rightarrow> nat" where
  "unvisited a = sum_list (map (\<lambda>row. length (filter Not row)) (rows a))"

text \<open>
  \<^term>\<open>constructed w h self\<close> holds of a generator object made by the
  constructor for width \<^term>\<open>w\<close> and height \<^term>\<open>h\<close>, whatever its two arrays
  hold by now. During carving both arrays are well formed with the shape the
  object's height and width give; \<^term>\<open>carved self cx cy d\<close> is the object
  after the three writes that open the passage in direction \<^term>\<open>d\<close>.
\<close>

definition constructed :: "int \<Rightarrow> int \<Rightarrow> MazeGenerator \<Rightarrow> bool" where
  "constructed w h self \<longleftrightarrow>
     gen_width self = w \<and> gen_height self = h \<and> gen_start self = (0, 0) \<and> gen_end self = (h - 1, w - 1)"

definition carve_inv :: "nat \<Rightarrow> nat \<Rightarrow> MazeGenerator \<Rightarrow> bool" where
  "carve_inv h w self \<longleftrightarrow>
     gen_width self = int w \<and> gen_height self = int h \<and>
     wf_ndarray h w (gen_maze self) \<and> wf_ndarray h w (gen_visited self)"

definition carve_post :: "nat \<Rightarrow> nat \<Rightarrow> MazeGenerator \<Rightarrow> MazeGenerator \<times> 'r \<Rightarrow> bool" where
  "carve_post h w self s' \<longleftrightarrow>
     carve_inv h w (fst s') \<and>
     unvisited (gen_visited (fst s')) \<le> unvisited (gen_visited self) \<and>
     gen_start (fst s') = gen_start self \<and> gen_end (fst s') = gen_end self"

definition carved :: "MazeGenerator \<Rightarrow> int \<Rightarrow> int \<Rightarrow> cell \<Rightarrow> MazeGenerator" where
  "carved self cx cy d =
     self\<lparr>gen_maze := put (put (gen_maze self) (cy + snd d div 2) (cx + fst d div 2) 1) (cy + snd d) (cx + fst d) 1,
          gen_visited := put (gen_visited self) (cy + snd d) (cx + fst d) True\<rparr>"

section \<open>Concrete inputs\<close>

text \<open>
  Small grids on which the solver is run: a ring of Path cells around a
  Wall, a grid cut in two by a row of Walls, three grids whose top-left cell
  is a Wall (one row of two cells, one row of three cells, two rows of two
  cells), and a single Path cell.
\<close>

definition ring_solver :: MazeSolver where
  "ring_solver = MazeSolver_init \<lparr>shape = (3, 3), rows = [[1, 1, 1], [1, 0, 1], [1, 1, 1]]\<rparr>"

definition wall_row_solver :: MazeSolver where
  "wall_row_solver = MazeSolver_init \<lparr>shape = (3, 3), rows = [[1, 1, 1], [0, 0, 0], [1, 1, 1]]\<rparr>"

definition wall_start_solver :: MazeSolver where
  "wall_start_solver = MazeSolver_init \<lparr>shape = (1, 2), rows = [[0, 1]]\<rparr>"

definition wall_first_solver :: MazeSolver where
  "wall_first_solver = MazeSolver_init \<lparr>shape = (1, 3), rows = [[0, 1, 1]]\<rparr>"

definition wall_corner_solver :: MazeSolver where
  "wall_corner_solver = MazeSolver_init \<lparr>shape = (2, 2), rows = [[0, 1], [1, 1]]\<rparr>"

definition single_solver :: MazeSolver where
  "single_solver = MazeSolver_init \<lparr>shape = (1, 1), rows = [[1]]\<rparr>"

text \<open>
  A stand-in for the random source, to run the generator: its state is a
  counter, seeding sets the counter, and shuffling rotates the list by the
  counter and increments it. The generator objects are the one the
  constructor returns for width 4 and height 3, the same object after one
  generation, the array that generation returns, and the object the
  constructor returns for width 0 and height 3.
\<close>

definition demo_seed :: "int \<Rightarrow> nat" where
  "demo_seed n = nat n"

definition demo_shuffle :: "nat \<Rightarrow> cell list \<Rightarrow> cell list \<times> nat" where
  "demo_shuffle r xs = (rotate r xs, Suc r)"

definition fresh_4x3 :: MazeGenerator where
  "fresh_4x3 =
     \<lparr>gen_width = 4, gen_height = 3,
      gen_maze = \<lparr>shape = (3, 4), rows = [[0, 0, 0, 0], [0, 0, 0, 0], [0, 0, 0, 0]]\<rparr>,
      gen_visited = \<lparr>shape = (3, 4), rows = [[False, False, False, False], [False, False, False, False], [False, False, False, False]]\<rparr>,
      gen_start = (0, 0), gen_end = (2, 3)\<rparr>"

definition used_4x3 :: MazeGenerator where
  "used_4x3 =
     \<lparr>gen_width = 4, gen_height = 3,
      gen_maze = \<lparr>shape = (3, 4), rows = [[1, 0, 1, 0], [1, 0, 1, 0], [1, 1, 1, 1]]\<rparr>,
      gen_visited = \<lparr>shape = (3, 4), rows = [[True, False, True, False], [False, False, False, False], [True, False, True, False]]\<rparr>,
      gen_start = (0, 0), gen_end = (2, 3)\<rparr>"

definition carved_4x3 :: "int ndarray" where
  "carved_4x3 = \<lparr>shape = (3, 4), rows = [[1, 0, 1, 0], [1, 0, 1, 0], [1, 1, 1, 1]]\<rparr>"

definition zero_width :: MazeGenerator where
  "zero_width =
     \<lparr>gen_width = 0, gen_height = 3,
      gen_maze = \<lparr>shape = (3, 0), rows = [[], [], []]\<rparr>,
      gen_visited = \<lparr>shape = (3, 0), rows = [[], [], []]\<rparr>,
      gen_start = (0, 0), gen_end = (2, -1)\<rparr>"

section \<open>Properties of the solver\<close>

declare reconstruct_path.simps [code]

declare a_star_loop.simps [code]

subsection \<open>Neighbours, walks and the heuristic\<close>

lemma get_neighbors_iff:
  "n \<in> set (get_neighbors self c) \<longleftrightarrow>
     passable self n \<and>
     (n = (fst c, snd c + 1) \<or> n = (fst c + 1, snd c) \<or>
      n = (fst c, snd c - 1) \<or> n = (fst c - 1, snd c))"
  by (auto simp: get_neighbors_def)

lemma get_neighbors_passable: "n \<in> set (get_neighbors self c) \<Longrightarrow> passable self n"
  by (simp add: get_neighbors_iff)

lemma get_neighbors_neq: "n \<in> set (get_neighbors self c) \<Longrightarrow> n \<noteq> c"
  by (cases c) (auto simp: get_neighbors_iff)

lemma get_neighbors_unit:
  "n \<in> set (get_neighbors self c) \<Longrightarrow> \<bar>fst n - fst c\<bar> + \<bar>snd n - snd c\<bar> = 1"
  by (auto simp: get_neighbors_iff)

lemma heuristic_step:
  "n \<in> set (get_neighbors self c) \<Longrightarrow> heuristic c goal \<le> 1 + heuristic n goal"
  by (auto simp: get_neighbors_iff heuristic_def)

lemma heuristic_self: "heuristic c c = 0"
  by (simp add: heuristic_def)

lemma heuristic_nonneg: "0 \<le> heuristic a b"
  by (simp add: heuristic_def)

lemma finite_passable: "finite {c. passable self c}"
proof -
  have "{c. passable self c} \<subseteq> {0..<solver_height self} \<times> {0..<solver_width self}"
    by (auto simp: passable_def)
  then show ?thesis by (rule finite_subset) simp
qed

lemma finite_cells_of: "finite (cells_of self start)"
  by (simp add: cells_of_def finite_passable)

lemma passable_iff: "passable self c \<longleftrightarrow> is_path_cell self c"
  by (auto simp: passable_def is_path_cell_def in_bounds_def)

lemma walk_snoc:
  "walk self (xs @ [c]) \<longleftrightarrow> walk self xs \<and> (xs = [] \<or> c \<in> set (get_neighbors self (last xs)))"
  by (induction self xs rule: walk.induct) auto

lemma walk_unit_steps: "walk self p \<Longrightarrow> unit_steps p"
  by (induction self p rule: walk.induct) (auto simp: get_neighbors_iff unit_step_def)

text \<open>
  The neighbours of a cell are exactly the Path cells one unit step away, so
  a walk is a list that moves by unit steps and whose cells after the first
  are Path cells.
\<close>

lemma get_neighbors_unit_step:
  "n \<in> set (get_neighbors self c) \<longleftrightarrow> is_path_cell self n \<and> unit_step c n"
proof -
  have "unit_step c n \<longleftrightarrow>
     (n = (fst c, snd c + 1) \<or> n = (fst c + 1, snd c) \<or>
      n = (fst c, snd c - 1) \<or> n = (fst c - 1, snd c))"
    by (cases c; cases n) (auto simp: unit_step_def)
  then show ?thesis by (auto simp: get_neighbors_iff passable_iff)
qed

lemma walk_iff:
  "walk self q \<longleftrightarrow> unit_steps q \<and> list_all (is_path_cell self) (tl q)"
  by (induction self q rule: walk.induct) (auto simp: get_neighbors_unit_step)

lemma grid_route_walk:
  assumes "grid_route self a b q"
  shows "q \<noteq> [] \<and> hd q = a \<and> last q = b \<and> walk self q"
proof -
  have "list_all (is_path_cell self) (tl q)"
    using assms unfolding grid_route_def by (cases q) auto
  then show ?thesis using assms unfolding grid_route_def by (simp add: walk_iff)
qed

lemma grid_route_start: "grid_route self a b q \<Longrightarrow> is_path_cell self a"
  unfolding grid_route_def by (cases q) auto

text \<open>
  The heuristic never exceeds the number of moves that remain on a walk to
  the goal.
\<close>

lemma heuristic_le_walk:
  "walk self (c # rest) \<Longrightarrow> last (c # rest) = goal \<Longrightarrow> heuristic c goal \<le> int (length rest)"
proof (induction rest arbitrary: c)
  case Nil
  then show ?case by (simp add: heuristic_self)
next
  case (Cons n rest)
  then have "heuristic n goal \<le> int (length rest)" by simp
  moreover have "heuristic c goal \<le> 1 + heuristic n goal"
    using Cons.prems by (auto intro: heuristic_step)
  ultimately show ?case by simp
qed

subsection \<open>The first invariant and the measure\<close>

lemma relax_neighbors_Cons:
  "g_score st current = Some gc \<Longrightarrow>
   relax_neighbors goal current (n # ns) st =
     relax_neighbors goal current ns (if improves st (gc + 1) n then improve goal current (gc + 1) n st else st)"
  by (simp add: improve_def improves_def Let_def)

lemma improve_simps [simp]:
  "came_from (improve goal current t n st) = (came_from st)(n \<mapsto> current)"
  "g_score (improve goal current t n st) = (g_score st)(n \<mapsto> t)"
  "open_set (improve goal current t n st) = insort (t + heuristic n goal, n) (open_set st)"
  by (simp_all add: improve_def)

lemma inv_basic_pop:
  "inv_basic self start st \<Longrightarrow> open_set st = e # rest \<Longrightarrow> inv_basic self start (st\<lparr>open_set := rest\<rparr>)"
  by (simp add: inv_basic_def)

lemma finite_dom_g: "inv_basic self start st \<Longrightarrow> finite (dom (g_score st))"
  unfolding inv_basic_def using finite_cells_of finite_subset by blast

lemma inv_basic_improve:
  assumes inv: "inv_basic self start st"
    and gc: "g_score st current = Some gc"
    and n: "n \<in> set (get_neighbors self current)"
    and imp: "improves st (gc + 1) n"
  shows "inv_basic self start (improve goal current (gc + 1) n st)"
proof -
  let ?st = "improve goal current (gc + 1) n st"
  have fin: "finite (dom (g_score st))" using inv by (rule finite_dom_g)
  have gc0: "0 \<le> gc" "gc < int (card (dom (g_score st)))"
    using inv gc unfolding inv_basic_def by blast+
  have nstart: "n \<noteq> start"
    using inv imp gc0 unfolding inv_basic_def improves_def by auto
  have ncur: "n \<noteq> current" using n by (rule get_neighbors_neq)
  have card_le: "card (dom (g_score st)) \<le> card (dom (g_score ?st))"
    using fin by (simp add: card_insert_le)
  have new: "gc + 1 < int (card (dom (g_score ?st)))"
  proof (cases "g_score st n")
    case None
    then have "n \<notin> dom (g_score st)" by auto
    then have "card (dom (g_score ?st)) = Suc (card (dom (g_score st)))"
      using fin by simp
    then show ?thesis using gc0 by simp
  next
    case (Some gn)
    then have "gc + 1 < gn" using imp by (simp add: improves_def)
    moreover have "gn < int (card (dom (g_score st)))"
      using inv Some unfolding inv_basic_def by blast
    ultimately show ?thesis using card_le by linarith
  qed
  have 1: "g_score ?st start = Some 0"
    using inv nstart unfolding inv_basic_def by simp
  have 2: "dom (g_score ?st) \<subseteq> cells_of self start"
    using inv get_neighbors_passable[OF n] unfolding inv_basic_def cells_of_def by auto
  have 3: "\<forall>c v. g_score ?st c = Some v \<longrightarrow> 0 \<le> v \<and> v < int (card (dom (g_score ?st)))"
  proof (intro allI impI)
    fix c v assume cv: "g_score ?st c = Some v"
    show "0 \<le> v \<and> v < int (card (dom (g_score ?st)))"
    proof (cases "c = n")
      case True
      then have "v = gc + 1" using cv by simp
      then show ?thesis using gc0 new by simp
    next
      case False
      then have "g_score st c = Some v" using cv by simp
      then have "0 \<le> v \<and> v < int (card (dom (g_score st)))"
        using inv unfolding inv_basic_def by blast
      then show ?thesis using card_le by linarith
    qed
  qed
  have 4: "\<forall>c p. came_from ?st c = Some p \<longrightarrow>
        c \<noteq> start \<and> c \<in> set (get_neighbors self p) \<and>
        (\<exists>gp gc. g_score ?st p = Some gp \<and> g_score ?st c = Some gc \<and> gp + 1 \<le> gc)"
  proof (intro allI impI)
    fix c p assume cp: "came_from ?st c = Some p"
    show "c \<noteq> start \<and> c \<in> set (get_neighbors self p) \<and>
        (\<exists>gp gc. g_score ?st p = Some gp \<and> g_score ?st c = Some gc \<and> gp + 1 \<le> gc)"
    proof (cases "c = n")
      case True
      then have "p = current" using cp by simp
      then show ?thesis using True nstart n gc ncur by simp
    next
      case False
      then have old: "came_from st c = Some p" using cp by simp
      then obtain gp gc' where g: "c \<noteq> start" "c \<in> set (get_neighbors self p)"
        "g_score st p = Some gp" "g_score st c = Some gc'" "gp + 1 \<le> gc'"
        using inv unfolding inv_basic_def by blast
      show ?thesis
      proof (cases "p = n")
        case True
        then have "gc + 1 < gp" using imp g(3) by (simp add: improves_def)
        then show ?thesis using g False True by simp
      next
        case pn: False
        then show ?thesis using g False by simp
      qed
    qed
  qed
  have 5: "\<forall>c. c \<in> dom (g_score ?st) \<longrightarrow> c \<noteq> start \<longrightarrow> c \<in> dom (came_from ?st)"
    using inv unfolding inv_basic_def by auto
  have 6: "\<forall>e \<in> set (open_set ?st). snd e \<in> dom (g_score ?st)"
    using inv unfolding inv_basic_def by (auto simp: set_insort_key)
  show ?thesis unfolding inv_basic_def using 1 2 3 4 5 6 by blast
qed

lemma sum_decrease_at:
  fixes f f' :: "'a \<Rightarrow> nat"
  assumes "finite U" "n \<in> U" "f' n < f n" "\<forall>c \<in> U - {n}. f' c = f c"
  shows "sum f' U < sum f U"
proof -
  have "sum f' U = f' n + sum f' (U - {n})" using assms(1,2) by (rule sum.remove)
  moreover have "sum f U = f n + sum f (U - {n})" using assms(1,2) by (rule sum.remove)
  moreover have "sum f' (U - {n}) = sum f (U - {n})" using assms(4) by (intro sum.cong) auto
  ultimately show ?thesis using assms(3) by simp
qed

lemma potential_improve:
  assumes inv: "inv_basic self start st"
    and gc: "g_score st current = Some gc"
    and n: "n \<in> set (get_neighbors self current)"
    and imp: "improves st (gc + 1) n"
  shows "potential self start (improve goal current (gc + 1) n st) < potential self start st"
proof -
  let ?U = "cells_of self start"
  have finU: "finite ?U" by (rule finite_cells_of)
  have nU: "n \<in> ?U" using get_neighbors_passable[OF n] by (simp add: cells_of_def)
  have sub: "dom (g_score st) \<subseteq> ?U" using inv unfolding inv_basic_def by blast
  have gc0: "0 \<le> gc" "gc < int (card (dom (g_score st)))"
    using inv gc unfolding inv_basic_def by blast+
  have less: "weight (card ?U) (Some (gc + 1)) < weight (card ?U) (g_score st n)"
  proof (cases "g_score st n")
    case None
    then have "dom (g_score st) \<subseteq> ?U - {n}" using sub by auto
    then have "card (dom (g_score st)) \<le> card (?U - {n})"
      using finU by (intro card_mono) auto
    also have "card (?U - {n}) < card ?U"
      using finU nU by (intro card_Diff1_less)
    finally show ?thesis using None gc0 by simp
  next
    case (Some gn)
    then have "gc + 1 < gn" using imp by (simp add: improves_def)
    then show ?thesis using Some gc0 by simp
  qed
  show ?thesis unfolding potential_def
    by (rule sum_decrease_at[OF finU nU]) (use less in auto)
qed

lemma loop_measure_improve:
  assumes "inv_basic self start st" "g_score st current = Some gc"
    "n \<in> set (get_neighbors self current)" "improves st (gc + 1) n"
  shows "loop_measure self start (improve goal current (gc + 1) n st) < loop_measure self start st"
  using potential_improve[OF assms, of goal] by (simp add: loop_measure_def)

lemma loop_measure_pop:
  "open_set st = e # rest \<Longrightarrow> loop_measure self start (st\<lparr>open_set := rest\<rparr>) < loop_measure self start st"
  by (simp add: loop_measure_def potential_def)

text \<open>
  The loop over the neighbours raises nothing, keeps the invariant and does
  not increase the measure.
\<close>

lemma relax_neighbors_basic:
  assumes "inv_basic self start st" "g_score st current = Some gc"
    "set ns \<subseteq> set (get_neighbors self current)"
  shows "\<exists>st'. relax_neighbors goal current ns st = Inr st' \<and> inv_basic self start st' \<and>
           loop_measure self start st' \<le> loop_measure self start st \<and>
           g_score st' current = Some gc"
  using assms
proof (induction ns arbitrary: st)
  case Nil
  then show ?case by simp
next
  case (Cons n ns)
  have n: "n \<in> set (get_neighbors self current)" using Cons.prems(3) by simp
  have ncur: "n \<noteq> current" using n by (rule get_neighbors_neq)
  show ?case
  proof (cases "improves st (gc + 1) n")
    case True
    let ?st = "improve goal current (gc + 1) n st"
    have "inv_basic self start ?st"
      using Cons.prems(1,2) n True by (rule inv_basic_improve)
    moreover have "g_score ?st current = Some gc" using Cons.prems(2) ncur by simp
    moreover have "set ns \<subseteq> set (get_neighbors self current)" using Cons.prems(3) by simp
    ultimately obtain st' where st': "relax_neighbors goal current ns ?st = Inr st'"
      "inv_basic self start st'" "loop_measure self start st' \<le> loop_measure self start ?st"
      "g_score st' current = Some gc"
      using Cons.IH by blast
    have "loop_measure self start ?st < loop_measure self start st"
      using Cons.prems(1,2) n True by (rule loop_measure_improve)
    then have "loop_measure self start st' \<le> loop_measure self start st" using st'(3) by simp
    moreover have "relax_neighbors goal current (n # ns) st = Inr st'"
      unfolding relax_neighbors_Cons[OF Cons.prems(2)] using st'(1) True by simp
    ultimately show ?thesis using st'(2,4) by blast
  next
    case False
    have "set ns \<subseteq> set (get_neighbors self current)" using Cons.prems(3) by simp
    then obtain st' where st': "relax_neighbors goal current ns st = Inr st'"
      "inv_basic self start st'" "loop_measure self start st' \<le> loop_measure self start st"
      "g_score st' current = Some gc"
      using Cons.IH Cons.prems(1,2) by blast
    have "relax_neighbors goal current (n # ns) st = Inr st'"
      unfolding relax_neighbors_Cons[OF Cons.prems(2)] using st'(1) False by simp
    then show ?thesis using st'(2,3,4) by blast
  qed
qed

text \<open>
  Following the back-pointers ends, at the start, after at most as many
  steps as the score of the cell it begins at, and what it collects is a walk
  read backwards.
\<close>

lemma reconstruct_path_chain:
  assumes inv: "inv_basic self start st"
  shows "g_score st c = Some v \<Longrightarrow>
         \<exists>chain. reconstruct_path (came_from st) c acc = Some (acc @ chain) \<and>
            int (length chain) \<le> v \<and> walk self (rev (chain @ [start])) \<and>
            hd (chain @ [start]) = c \<and> (\<forall>x \<in> set chain. passable self x)"
proof (induction "nat v" arbitrary: c v acc rule: less_induct)
  case less
  have v0: "0 \<le> v" using inv less.prems unfolding inv_basic_def by blast
  show ?case
  proof (cases "came_from st c")
    case None
    then have "c = start" using inv less.prems unfolding inv_basic_def by blast
    moreover have "reconstruct_path (came_from st) c acc = Some acc"
      using None by (subst reconstruct_path.simps) simp
    ultimately show ?thesis using v0 by auto
  next
    case (Some p)
    then obtain gp gc where g: "c \<noteq> start" "c \<in> set (get_neighbors self p)"
      "g_score st p = Some gp" "g_score st c = Some gc" "gp + 1 \<le> gc"
      using inv unfolding inv_basic_def by blast
    have gcv: "gc = v" using g(4) less.prems by simp
    have gp0: "0 \<le> gp" using inv g(3) unfolding inv_basic_def by blast
    have "nat gp < nat v" using gp0 g(5) gcv by simp
    from less.hyps[OF this g(3), of "acc @ [c]"]
    obtain chain where ch:
      "reconstruct_path (came_from st) p (acc @ [c]) = Some ((acc @ [c]) @ chain)"
      "int (length chain) \<le> gp" "walk self (rev (chain @ [start]))"
      "hd (chain @ [start]) = p" "\<forall>x \<in> set chain. passable self x"
      by blast
    have "reconstruct_path (came_from st) c acc = Some (acc @ (c # chain))"
      using Some ch(1) by (subst reconstruct_path.simps) simp
    moreover have "int (length (c # chain)) \<le> v" using ch(2) g(5) gcv by simp
    moreover have "walk self (rev ((c # chain) @ [start]))"
    proof -
      have "last (rev (chain @ [start])) = hd (chain @ [start])" by (rule last_rev)
      then have "last (rev (chain @ [start])) = p" using ch(4) by simp
      then have "walk self (rev (chain @ [start]) @ [c])"
        using ch(3) g(2) by (subst walk_snoc) simp
      then show ?thesis by simp
    qed
    moreover have "hd ((c # chain) @ [start]) = c" by simp
    moreover have "\<forall>x \<in> set (c # chain). passable self x"
      using ch(5) get_neighbors_passable[OF g(2)] by simp
    ultimately show ?thesis by blast
  qed
qed

subsection \<open>The second invariant\<close>

lemma inv_opt_pop:
  assumes opt: "inv_opt self start goal cur0 [] st" and pop: "open_set st = e # rest"
  shows "inv_opt self start goal (snd e) (get_neighbors self (snd e)) (st\<lparr>open_set := rest\<rparr>)"
proof -
  let ?st = "st\<lparr>open_set := rest\<rparr>"
  have pend: "pending goal ?st c \<or> c = snd e" if "pending goal st c" for c
    using that pop unfolding pending_def by auto
  have rel: "relaxed ?st c n = relaxed st c n" for c n
    by (simp add: relaxed_def)
  have 1: "sorted (open_set ?st)" using opt pop unfolding inv_opt_def by simp
  have 2: "\<forall>x \<in> set (open_set ?st).
        snd x = start \<or> (\<exists>gc. g_score ?st (snd x) = Some gc \<and> gc + heuristic (snd x) goal \<le> fst x)"
    using opt pop unfolding inv_opt_def by simp
  have 3: "\<forall>c \<in> dom (g_score ?st). \<forall>n \<in> set (get_neighbors self c).
        pending goal ?st c \<or> relaxed ?st c n \<or> (c = snd e \<and> n \<in> set (get_neighbors self (snd e)))"
  proof (intro ballI)
    fix c n assume c: "c \<in> dom (g_score ?st)" and n: "n \<in> set (get_neighbors self c)"
    then have "pending goal st c \<or> relaxed st c n"
      using opt unfolding inv_opt_def by auto
    then show "pending goal ?st c \<or> relaxed ?st c n \<or> (c = snd e \<and> n \<in> set (get_neighbors self (snd e)))"
      using pend[of c] rel[of c n] n by blast
  qed
  show ?thesis unfolding inv_opt_def using 1 2 3 by blast
qed

lemma inv_opt_skip:
  assumes "inv_opt self start goal cur (n # ns) st" "g_score st cur = Some gc"
    "\<not> improves st (gc + 1) n"
  shows "inv_opt self start goal cur ns st"
proof -
  have "relaxed st cur n"
    using assms(2,3) unfolding relaxed_def improves_def by (auto split: option.splits)
  then show ?thesis using assms(1) unfolding inv_opt_def by auto
qed

lemma inv_opt_improve:
  assumes opt: "inv_opt self start goal cur (n # ns) st"
    and gc: "g_score st cur = Some gc"
    and n: "n \<in> set (get_neighbors self cur)"
    and imp: "improves st (gc + 1) n"
  shows "inv_opt self start goal cur ns (improve goal cur (gc + 1) n st)"
proof -
  let ?st = "improve goal cur (gc + 1) n st"
  have ncur: "n \<noteq> cur" using n by (rule get_neighbors_neq)
  have pend_n: "pending goal ?st n"
    unfolding pending_def by (auto simp: set_insort_key)
  have pend: "pending goal ?st c" if "pending goal st c" for c
  proof (cases "c = n")
    case True then show ?thesis using pend_n by simp
  next
    case False then show ?thesis using that unfolding pending_def by (auto simp: set_insort_key)
  qed
  have rel: "pending goal ?st c \<or> relaxed ?st c m" if "relaxed st c m" for c m
  proof (cases "c = n")
    case True then show ?thesis using pend_n by simp
  next
    case False
    from that obtain g1 g2 where g: "g_score st c = Some g1" "g_score st m = Some g2" "g2 \<le> g1 + 1"
      unfolding relaxed_def by blast
    show ?thesis
    proof (cases "m = n")
      case True
      then have "gc + 1 < g2" using imp g(2) by (simp add: improves_def)
      then have "relaxed ?st c m" using g False True unfolding relaxed_def by simp
      then show ?thesis ..
    next
      case mn: False
      then have "relaxed ?st c m" using g False unfolding relaxed_def by simp
      then show ?thesis ..
    qed
  qed
  have cur_n: "relaxed ?st cur n" using gc ncur unfolding relaxed_def by simp
  have 1: "sorted (open_set ?st)" using opt unfolding inv_opt_def by (simp add: sorted_insort)
  have 2: "\<forall>e \<in> set (open_set ?st).
        snd e = start \<or> (\<exists>gc. g_score ?st (snd e) = Some gc \<and> gc + heuristic (snd e) goal \<le> fst e)"
  proof
    fix e assume "e \<in> set (open_set ?st)"
    then consider "e = (gc + 1 + heuristic n goal, n)" | "e \<in> set (open_set st)"
      by (auto simp: set_insort_key)
    then show "snd e = start \<or> (\<exists>gc. g_score ?st (snd e) = Some gc \<and> gc + heuristic (snd e) goal \<le> fst e)"
    proof cases
      case 1 then show ?thesis by simp
    next
      case 2
      then have old: "snd e = start \<or> (\<exists>gc. g_score st (snd e) = Some gc \<and> gc + heuristic (snd e) goal \<le> fst e)"
        using opt unfolding inv_opt_def by blast
      show ?thesis
      proof (cases "snd e = n")
        case True
        then show ?thesis using old imp by (auto simp: improves_def)
      next
        case False then show ?thesis using old by simp
      qed
    qed
  qed
  have 3: "\<forall>c \<in> dom (g_score ?st). \<forall>m \<in> set (get_neighbors self c).
        pending goal ?st c \<or> relaxed ?st c m \<or> (c = cur \<and> m \<in> set ns)"
  proof (intro ballI)
    fix c m assume c: "c \<in> dom (g_score ?st)" and m: "m \<in> set (get_neighbors self c)"
    show "pending goal ?st c \<or> relaxed ?st c m \<or> (c = cur \<and> m \<in> set ns)"
    proof (cases "c = n")
      case True then show ?thesis using pend_n by simp
    next
      case False
      then have "c \<in> dom (g_score st)" using c by auto
      then have "pending goal st c \<or> relaxed st c m \<or> (c = cur \<and> m \<in> set (n # ns))"
        using opt m unfolding inv_opt_def by blast
      then have "pending goal st c \<or> relaxed st c m \<or> (c = cur \<and> (m = n \<or> m \<in> set ns))"
        by simp
      then show ?thesis using pend[of c] rel[of c m] cur_n by blast
    qed
  qed
  show ?thesis unfolding inv_opt_def using 1 2 3 by blast
qed

lemma relax_neighbors_opt:
  assumes "inv_opt self start goal cur ns st" "g_score st cur = Some gc"
    "set ns \<subseteq> set (get_neighbors self cur)"
    "relax_neighbors goal cur ns st = Inr st'"
  shows "inv_opt self start goal cur [] st'"
  using assms
proof (induction ns arbitrary: st)
  case Nil
  then show ?case by simp
next
  case (Cons n ns)
  have n: "n \<in> set (get_neighbors self cur)" using Cons.prems(3) by simp
  have ncur: "n \<noteq> cur" using n by (rule get_neighbors_neq)
  have sub: "set ns \<subseteq> set (get_neighbors self cur)" using Cons.prems(3) by simp
  show ?case
  proof (cases "improves st (gc + 1) n")
    case True
    let ?st = "improve goal cur (gc + 1) n st"
    have "inv_opt self start goal cur ns ?st"
      using Cons.prems(1,2) n True by (rule inv_opt_improve)
    moreover have "g_score ?st cur = Some gc" using Cons.prems(2) ncur by simp
    moreover have "relax_neighbors goal cur ns ?st = Inr st'"
      using Cons.prems(4) True unfolding relax_neighbors_Cons[OF Cons.prems(2)] by simp
    ultimately show ?thesis using Cons.IH sub by blast
  next
    case False
    have "inv_opt self start goal cur ns st"
      using Cons.prems(1,2) False by (rule inv_opt_skip)
    moreover have "relax_neighbors goal cur ns st = Inr st'"
      using Cons.prems(4) False unfolding relax_neighbors_Cons[OF Cons.prems(2)] by simp
    ultimately show ?thesis using Cons.IH Cons.prems(2) sub by blast
  qed
qed

text \<open>
  Along any walk to the goal from a recorded cell with score \<^term>\<open>v\<close>, either
  the goal is recorded with a score of at most \<^term>\<open>v\<close> plus the length of the
  walk, or the least priority in the queue is at most that number.
\<close>

lemma opt_walk:
  assumes opt: "inv_opt self start goal cur [] st" and pop: "open_set st = e # rest"
  shows "walk self (c # cs) \<Longrightarrow> last (c # cs) = goal \<Longrightarrow> g_score st c = Some v \<Longrightarrow>
         (\<exists>gg. g_score st goal = Some gg \<and> gg \<le> v + int (length cs)) \<or>
         fst e \<le> v + int (length cs)"
proof (induction cs arbitrary: c v)
  case Nil
  then show ?case by simp
next
  case (Cons n cs)
  have n: "n \<in> set (get_neighbors self c)" and w: "walk self (n # cs)"
    using Cons.prems(1) by simp_all
  have l: "last (n # cs) = goal" using Cons.prems(2) by simp
  have "c \<in> dom (g_score st)" using Cons.prems(3) by auto
  then have "pending goal st c \<or> relaxed st c n"
    using opt n unfolding inv_opt_def by auto
  then show ?case
  proof
    assume "pending goal st c"
    then obtain p where p: "(p, c) \<in> set (open_set st)" "p \<le> v + heuristic c goal"
      using Cons.prems(3) unfolding pending_def by auto
    have "sorted (e # rest)" using opt pop unfolding inv_opt_def by simp
    then have "e \<le> (p, c)" using p(1) pop by auto
    then have "fst e \<le> p" by (auto simp: less_eq_prod_def)
    moreover have "heuristic c goal \<le> int (length (n # cs))"
      using Cons.prems(1,2) by (rule heuristic_le_walk)
    ultimately show ?thesis using p(2) by linarith
  next
    assume "relaxed st c n"
    then obtain gn where gn: "g_score st n = Some gn" "gn \<le> v + 1"
      using Cons.prems(3) unfolding relaxed_def by auto
    from Cons.IH[OF w l gn(1)] show ?thesis using gn(2) by auto
  qed
qed

lemma goal_optimal:
  assumes basic: "inv_basic self start st" and opt: "inv_opt self start goal cur [] st"
    and pop: "open_set st = e # rest" and e: "snd e = goal"
    and q: "q \<noteq> []" "hd q = start" "last q = goal" "walk self q"
  shows "\<exists>gg. g_score st goal = Some gg \<and> gg + 1 \<le> int (length q)"
proof -
  obtain cs where qs: "q = start # cs" using q(1,2) by (cases q) auto
  have g0: "g_score st start = Some 0" using basic unfolding inv_basic_def by blast
  have "e \<in> set (open_set st)" using pop by simp
  then have ein: "snd e = start \<or>
      (\<exists>gc. g_score st (snd e) = Some gc \<and> gc + heuristic (snd e) goal \<le> fst e)"
    using opt unfolding inv_opt_def by blast
  have "(\<exists>gg. g_score st goal = Some gg \<and> gg \<le> 0 + int (length cs)) \<or>
         fst e \<le> 0 + int (length cs)"
    using q(3,4) g0 unfolding qs by (intro opt_walk[OF opt pop])
  then show ?thesis
  proof
    assume "\<exists>gg. g_score st goal = Some gg \<and> gg \<le> 0 + int (length cs)"
    then show ?thesis using qs by auto
  next
    assume le: "fst e \<le> 0 + int (length cs)"
    from ein show ?thesis
    proof
      assume "snd e = start"
      then show ?thesis using g0 e qs by auto
    next
      assume "\<exists>gc. g_score st (snd e) = Some gc \<and> gc + heuristic (snd e) goal \<le> fst e"
      then show ?thesis using le e qs by (auto simp: heuristic_self)
    qed
  qed
qed

subsection \<open>The main loop\<close>

text \<open>
  From a state that satisfies both invariants the loop ends without an
  exception, hands back the solver object it was given, and a path it returns
  is a shortest walk.
\<close>

lemma a_star_loop_correct:
  "inv_basic self start st \<Longrightarrow> inv_opt self start goal cur [] st \<Longrightarrow>
   \<exists>r. a_star_loop self start goal st = Some (Inr r, self) \<and>
       (\<forall>path. r = Some path \<longrightarrow> shortest_walk self start goal path)"
proof (induction "loop_measure self start st" arbitrary: st cur rule: less_induct)
  case less
  show ?case
  proof (cases "open_set st")
    case Nil
    then have "a_star_loop self start goal st = Some (Inr None, self)"
      by (subst a_star_loop.simps) simp
    then show ?thesis by simp
  next
    case (Cons e rest)
    have "snd e \<in> dom (g_score st)"
      using less.prems(1) Cons unfolding inv_basic_def by simp
    then obtain v where v: "g_score st (snd e) = Some v" by auto
    show ?thesis
    proof (cases "snd e = goal")
      case True
      from reconstruct_path_chain[OF less.prems(1) v, of "[]"]
      obtain chain where ch: "reconstruct_path (came_from st) (snd e) [] = Some chain"
        "int (length chain) \<le> v" "walk self (rev (chain @ [start]))"
        "hd (chain @ [start]) = snd e" "\<forall>x \<in> set chain. passable self x"
        by auto
      let ?path = "rev (chain @ [start])"
      have res: "a_star_loop self start goal st = Some (Inr (Some ?path), self)"
        using Cons True ch(1) by (subst a_star_loop.simps) simp
      have "last ?path = hd (chain @ [start])" by (rule last_rev)
      then have lst: "last ?path = goal" using ch(4) True by simp
      have best: "length ?path \<le> length q"
        if "q \<noteq> [] \<and> hd q = start \<and> last q = goal \<and> walk self q" for q
      proof -
        from that have q: "q \<noteq> []" "hd q = start" "last q = goal" "walk self q"
          by simp_all
        from goal_optimal[OF less.prems Cons True q]
        obtain gg where gg: "g_score st goal = Some gg" "gg + 1 \<le> int (length q)"
          by blast
        have "gg = v" using gg(1) v True by simp
        then show ?thesis using gg(2) ch(2) by simp
      qed
      have "shortest_walk self start goal ?path"
        unfolding shortest_walk_def using lst ch(3,5) best by simp
      then show ?thesis using res by simp
    next
      case False
      let ?st = "st\<lparr>open_set := rest\<rparr>"
      have b: "inv_basic self start ?st" using less.prems(1) Cons by (rule inv_basic_pop)
      have v': "g_score ?st (snd e) = Some v" using v by simp
      obtain st' where st': "relax_neighbors goal (snd e) (get_neighbors self (snd e)) ?st = Inr st'"
        "inv_basic self start st'" "loop_measure self start st' \<le> loop_measure self start ?st"
        using relax_neighbors_basic[OF b v' subset_refl] by blast
      have "inv_opt self start goal (snd e) (get_neighbors self (snd e)) ?st"
        using less.prems(2) Cons by (rule inv_opt_pop)
      then have o: "inv_opt self start goal (snd e) [] st'"
        using v' subset_refl st'(1) by (rule relax_neighbors_opt)
      have "loop_measure self start ?st < loop_measure self start st"
        using Cons by (rule loop_measure_pop)
      then have "loop_measure self start st' < loop_measure self start st" using st'(3) by simp
      from less.hyps[OF this st'(2) o]
      obtain r where r: "a_star_loop self start goal st' = Some (Inr r, self)"
        "\<forall>path. r = Some path \<longrightarrow> shortest_walk self start goal path" by blast
      have "a_star_loop self start goal st = a_star_loop self start goal st'"
        using Cons False st'(1) by (subst a_star_loop.simps) simp
      then show ?thesis using r by simp
    qed
  qed
qed

lemma a_star_solve_loop:
  "a_star_solve self start end_arg =
     a_star_loop self start (goal_of self end_arg) (initial_state start (goal_of self end_arg))"
  by (simp add: a_star_solve_def goal_of_def initial_state_def Let_def)

lemma inv_basic_initial: "inv_basic self start (initial_state start goal)"
  by (simp add: inv_basic_def initial_state_def cells_of_def)

lemma inv_opt_initial: "inv_opt self start goal start [] (initial_state start goal)"
  by (auto simp: inv_opt_def initial_state_def pending_def heuristic_nonneg)

lemma a_star_solve_correct:
  "\<exists>r. a_star_solve self start end_arg = Some (Inr r, self) \<and>
       (\<forall>path. r = Some path \<longrightarrow> shortest_walk self start (goal_of self end_arg) path)"
  unfolding a_star_solve_loop
  using inv_basic_initial inv_opt_initial by (rule a_star_loop_correct)

lemma shortest_walk_grid_route:
  assumes "shortest_walk self start goal path" "is_path_cell self start"
  shows "grid_route self start goal path"
proof -
  obtain cs where p: "path = start # cs"
    using assms(1) unfolding shortest_walk_def by (cases path) auto
  have "list_all (is_path_cell self) cs"
    using assms(1) unfolding shortest_walk_def p by (simp add: list_all_iff passable_iff)
  moreover have "unit_steps path"
    using assms(1) unfolding shortest_walk_def by (auto intro: walk_unit_steps)
  ultimately show ?thesis
    using assms unfolding shortest_walk_def grid_route_def p by simp
qed

lemma shortest_walk_least:
  assumes "shortest_walk self start goal path" "grid_route self start goal q"
  shows "length path \<le> length q"
  using assms(1) grid_route_walk[OF assms(2)] unfolding shortest_walk_def by blast

lemma shortest_walk_length:
  assumes "shortest_walk self start goal path" "is_path_cell self start"
  shows "length path - 1 = shortest_length self start goal"
proof -
  have r: "grid_route self start goal path" using assms by (rule shortest_walk_grid_route)
  then have ne: "path \<noteq> []" by (simp add: grid_route_def)
  have "(LEAST k. \<exists>q. grid_route self start goal q \<and> length q = Suc k) = length path - 1"
  proof (rule Least_equality)
    show "\<exists>q. grid_route self start goal q \<and> length q = Suc (length path - 1)"
      using r ne by (intro exI[of _ path]) (cases path, auto)
  next
    fix k assume "\<exists>q. grid_route self start goal q \<and> length q = Suc k"
    then obtain q where q: "grid_route self start goal q" "length q = Suc k" by blast
    then have "length path \<le> length q" using assms(1) by (intro shortest_walk_least)
    then show "length path - 1 \<le> k" using q(2) by simp
  qed
  then show ?thesis by (simp add: shortest_length_def)
qed

lemma a_star_solve_same_cell_aux:
  "a_star_solve self c (Some c) = Some (Inr (Some [c]), self)"
  by (simp add: a_star_solve_def a_star_loop.simps reconstruct_path.simps)

text \<open>
  In the grid cut by a row of Walls no route leaves the top row.
\<close>

lemma wall_row_blocked:
  "unit_steps (c # cs) \<Longrightarrow> list_all (is_path_cell wall_row_solver) (c # cs) \<Longrightarrow> fst c = 0 \<Longrightarrow>
   fst (last (c # cs)) = 0"
proof (induction cs arbitrary: c)
  case Nil
  then show ?case by simp
next
  case (Cons n cs)
  have row1: "[0, 0, 0 :: int] ! i = 0" if "i < 3" for i
    using that by (auto simp: less_Suc_eq numeral_3_eq_3)
  have "\<not> is_path_cell wall_row_solver (1, y)" for y
    using row1[of "nat y"]
    by (auto simp: is_path_cell_def in_bounds_def wall_row_solver_def MazeSolver_init_def item_def)
  moreover have "\<not> is_path_cell wall_row_solver (-1, y)" for y
    by (simp add: is_path_cell_def in_bounds_def)
  moreover have "unit_step c n" "is_path_cell wall_row_solver n"
    using Cons.prems by simp_all
  moreover have "fst n = 0 \<or> fst n = 1 \<or> fst n = -1"
    using \<open>unit_step c n\<close> Cons.prems(3) by (auto simp: unit_step_def)
  ultimately have "fst n = 0"
    by (metis prod.collapse)
  then show ?case using Cons.IH[of n] Cons.prems by simp
qed

section \<open>Properties of the generator\<close>

subsection \<open>Array writes\<close>

lemma np_set_in_bounds:
  assumes "wf_ndarray h w a" "0 \<le> i" "i < int h" "0 \<le> j" "j < int w"
  shows "np_set a i j v = Inr (put a i j v)"
  using assms by (simp add: np_set_def np_index_def wf_ndarray_def put_def)

lemma np_set_Inr:
  assumes "wf_ndarray h w a" "np_set a i j v = Inr a'" "0 \<le> i" "0 \<le> j"
  shows "i < int h \<and> j < int w \<and> a' = put a i j v"
  using assms
  by (auto simp: np_set_def np_index_def wf_ndarray_def put_def split: option.splits if_splits)

lemma wf_ndarray_put:
  assumes "wf_ndarray h w a"
  shows "wf_ndarray h w (put a i j v)"
proof -
  let ?new = "(rows a ! nat i)[nat j := v]"
  have "length row = w" if "row \<in> set ((rows a)[nat i := ?new])" for row
  proof (cases "nat i < length (rows a)")
    case True
    then have "length ?new = w" using assms unfolding wf_ndarray_def by simp
    moreover have "row = ?new \<or> row \<in> set (rows a)"
      using that set_update_subset_insert[of "rows a" "nat i" ?new] by auto
    ultimately show ?thesis using assms unfolding wf_ndarray_def by auto
  next
    case False
    then have "(rows a)[nat i := ?new] = rows a" by (intro list_update_beyond) simp
    then show ?thesis using that assms unfolding wf_ndarray_def by simp
  qed
  then show ?thesis using assms unfolding wf_ndarray_def put_def by simp
qed

lemma item_put:
  assumes "wf_ndarray h w a" "0 \<le> i" "i < int h" "0 \<le> j" "j < int w"
    "0 \<le> i'" "i' < int h" "0 \<le> j'" "j' < int w"
  shows "item (put a i j v) i' j' = (if i' = i \<and> j' = j then v else item a i' j')"
proof -
  have len: "length (rows a) = h" "\<And>r. r < h \<Longrightarrow> length (rows a ! r) = w"
    using assms(1) unfolding wf_ndarray_def by auto
  have ni: "nat i < h" "nat i' < h" "nat j < w" "nat j' < w" using assms by auto
  show ?thesis
  proof (cases "i' = i")
    case True
    show ?thesis
    proof (cases "j' = j")
      case True
      then show ?thesis using \<open>i' = i\<close> len ni unfolding item_def put_def by simp
    next
      case False
      then have "nat j' \<noteq> nat j" using assms by auto
      then show ?thesis using \<open>i' = i\<close> False len ni unfolding item_def put_def by simp
    qed
  next
    case False
    then have "nat i' \<noteq> nat i" using assms by auto
    then show ?thesis using False unfolding item_def put_def by simp
  qed
qed

lemma np_zeros_wf:
  "np_zeros h w z = Inr a \<Longrightarrow> 0 \<le> h \<and> 0 \<le> w \<and> wf_ndarray (nat h) (nat w) a"
  by (auto simp: np_zeros_def wf_ndarray_def split: if_splits)

lemma item_zeros:
  "np_zeros h w z = Inr a \<Longrightarrow> 0 \<le> i \<Longrightarrow> i < h \<Longrightarrow> 0 \<le> j \<Longrightarrow> j < w \<Longrightarrow> item a i j = z"
  by (auto simp: np_zeros_def item_def split: if_splits)

lemma count_row_update:
  "c < length row \<Longrightarrow> \<not> row ! c \<Longrightarrow>
   Suc (length (filter Not (row[c := True]))) = length (filter Not row)"
proof (induction row arbitrary: c)
  case Nil
  then show ?case by simp
next
  case (Cons x row)
  then show ?case by (cases c) auto
qed

lemma sum_list_map_update:
  fixes f :: "'a \<Rightarrow> nat"
  shows "r < length rs \<Longrightarrow>
         sum_list (map f (rs[r := x])) + f (rs ! r) = sum_list (map f rs) + f x"
proof (induction rs arbitrary: r)
  case Nil
  then show ?case by simp
next
  case (Cons y rs)
  then show ?case by (cases r) auto
qed

lemma unvisited_put:
  assumes "wf_ndarray h w a" "0 \<le> i" "i < int h" "0 \<le> j" "j < int w" "\<not> item a i j"
  shows "Suc (unvisited (put a i j True)) = unvisited a"
proof -
  let ?f = "\<lambda>row. length (filter Not row)"
  have len: "length (rows a) = h" "length (rows a ! nat i) = w"
    using assms(1,2,3) unfolding wf_ndarray_def by auto
  have r: "nat i < length (rows a)" using assms(2,3) len by simp
  have c: "nat j < length (rows a ! nat i)" using assms(4,5) len by simp
  have "Suc (?f ((rows a ! nat i)[nat j := True])) = ?f (rows a ! nat i)"
    using c assms(6) unfolding item_def by (rule count_row_update)
  moreover have "sum_list (map ?f ((rows a)[nat i := (rows a ! nat i)[nat j := True]])) + ?f (rows a ! nat i)
      = sum_list (map ?f (rows a)) + ?f ((rows a ! nat i)[nat j := True])"
    using r by (rule sum_list_map_update)
  ultimately show ?thesis unfolding unvisited_def put_def by simp
qed

lemma unvisited_zeros:
  "np_zeros h w False = Inr a \<Longrightarrow> unvisited a = nat h * nat w"
  by (auto simp: np_zeros_def unvisited_def map_replicate_const sum_list_replicate split: if_splits)

lemma midpoint_bounds:
  fixes c d n :: int
  assumes "0 \<le> c" "c < n" "0 \<le> c + d" "c + d < n"
  shows "0 \<le> c + d div 2 \<and> c + d div 2 < n"
  using assms by presburger

subsection \<open>Carving\<close>

text \<open>
  One step of the loop over the directions either skips the direction or
  opens the passage and recurses; opening a passage keeps the arrays well
  formed and marks exactly one more cell as visited.
\<close>

lemma carve_directions_skip:
  assumes "\<not> (0 \<le> cx + fst d \<and> cx + fst d < gen_width self \<and> 0 \<le> cy + snd d \<and> cy + snd d < gen_height self \<and>
             \<not> item (gen_visited self) (cy + snd d) (cx + fst d))"
  shows "carve_directions shuffle depth cx cy (d # rest) (self, rng) =
         carve_directions shuffle depth cx cy rest (self, rng)"
proof -
  have "(0 \<le> cx + fst d \<and> cx + fst d < gen_width self \<and> 0 \<le> cy + snd d \<and> cy + snd d < gen_height self \<and>
         \<not> item (gen_visited self) (cy + snd d) (cx + fst d)) = False"
    using assms by simp
  then show ?thesis
    by (simp only: carve_directions.simps Let_def fst_conv snd_conv if_False)
qed

lemma carve_directions_carve:
  assumes inv: "carve_inv h w self"
    and c: "0 \<le> cx" "cx < int w" "0 \<le> cy" "cy < int h"
    and n: "0 \<le> cx + fst d \<and> cx + fst d < gen_width self \<and> 0 \<le> cy + snd d \<and> cy + snd d < gen_height self \<and>
             \<not> item (gen_visited self) (cy + snd d) (cx + fst d)"
  shows "carve_directions shuffle depth cx cy (d # rest) (self, rng) =
         (case carve_passages_from shuffle depth (cx + fst d) (cy + snd d) (carved self cx cy d, rng) of
            Inl e \<Rightarrow> Inl e
          | Inr s' \<Rightarrow> carve_directions shuffle depth cx cy rest s')"
proof -
  have wh: "gen_width self = int w" "gen_height self = int h"
    and wfm: "wf_ndarray h w (gen_maze self)" and wfv: "wf_ndarray h w (gen_visited self)"
    using inv unfolding carve_inv_def by auto
  have nb: "0 \<le> cx + fst d" "cx + fst d < int w" "0 \<le> cy + snd d" "cy + snd d < int h"
    using n wh by auto
  have mx: "0 \<le> cx + fst d div 2 \<and> cx + fst d div 2 < int w"
    using c(1,2) nb(1,2) by (rule midpoint_bounds)
  have my: "0 \<le> cy + snd d div 2 \<and> cy + snd d div 2 < int h"
    using c(3,4) nb(3,4) by (rule midpoint_bounds)
  have 1: "np_set (gen_visited self) (cy + snd d) (cx + fst d) True =
           Inr (put (gen_visited self) (cy + snd d) (cx + fst d) True)"
    using wfv nb(3,4,1,2) by (rule np_set_in_bounds)
  have 2: "np_set (gen_maze self) (cy + snd d div 2) (cx + fst d div 2) 1 =
           Inr (put (gen_maze self) (cy + snd d div 2) (cx + fst d div 2) 1)"
    using wfm my mx by (intro np_set_in_bounds) auto
  have 3: "np_set (put (gen_maze self) (cy + snd d div 2) (cx + fst d div 2) 1) (cy + snd d) (cx + fst d) 1 =
           Inr (put (put (gen_maze self) (cy + snd d div 2) (cx + fst d div 2) 1) (cy + snd d) (cx + fst d) 1)"
    using wf_ndarray_put[OF wfm] nb(3,4,1,2) by (rule np_set_in_bounds)
  show ?thesis using n by (simp add: Let_def 1 2 3 carved_def)
qed

lemma carved_inv:
  assumes "carve_inv h w self"
  shows "carve_inv h w (carved self cx cy d)"
  using assms unfolding carve_inv_def carved_def by (simp add: wf_ndarray_put)

lemma carved_unvisited:
  assumes inv: "carve_inv h w self"
    and n: "0 \<le> cx + fst d \<and> cx + fst d < gen_width self \<and> 0 \<le> cy + snd d \<and> cy + snd d < gen_height self \<and>
             \<not> item (gen_visited self) (cy + snd d) (cx + fst d)"
  shows "Suc (unvisited (gen_visited (carved self cx cy d))) = unvisited (gen_visited self)"
proof -
  have "wf_ndarray h w (gen_visited self)" "cx + fst d < int w" "cy + snd d < int h"
    using inv n unfolding carve_inv_def by auto
  then have "Suc (unvisited (put (gen_visited self) (cy + snd d) (cx + fst d) True)) = unvisited (gen_visited self)"
    using n by (intro unvisited_put) auto
  then show ?thesis by (simp add: carved_def)
qed

text \<open>
  A carving call that returns keeps the invariant, the start and the end,
  and never unmarks a cell.
\<close>

lemma carve_directions_post:
  assumes IH: "\<And>cx cy self rng s'.
      carve_inv h w self \<Longrightarrow> 0 \<le> cx \<Longrightarrow> cx < int w \<Longrightarrow> 0 \<le> cy \<Longrightarrow> cy < int h \<Longrightarrow>
      carve_passages_from shuffle depth cx cy (self, rng) = Inr s' \<Longrightarrow> carve_post h w self s'"
  shows "carve_inv h w self \<Longrightarrow> 0 \<le> cx \<Longrightarrow> cx < int w \<Longrightarrow> 0 \<le> cy \<Longrightarrow> cy < int h \<Longrightarrow>
         carve_directions shuffle depth cx cy ds (self, rng) = Inr s' \<Longrightarrow> carve_post h w self s'"
proof (induction ds arbitrary: self rng)
  case Nil
  then show ?case by (auto simp: carve_post_def)
next
  case (Cons d ds)
  let ?nx = "cx + fst d" and ?ny = "cy + snd d"
  let ?guard = "0 \<le> ?nx \<and> ?nx < gen_width self \<and> 0 \<le> ?ny \<and> ?ny < gen_height self \<and>
                \<not> item (gen_visited self) ?ny ?nx"
  show ?case
  proof (cases ?guard)
    case False
    then have "carve_directions shuffle depth cx cy (d # ds) (self, rng) =
               carve_directions shuffle depth cx cy ds (self, rng)"
      by (rule carve_directions_skip)
    then show ?thesis using Cons.IH[OF Cons.prems(1-5)] Cons.prems(6) by simp
  next
    case True
    let ?self1 = "carved self cx cy d"
    have eq: "carve_directions shuffle depth cx cy (d # ds) (self, rng) =
         (case carve_passages_from shuffle depth ?nx ?ny (?self1, rng) of
            Inl e \<Rightarrow> Inl e
          | Inr s' \<Rightarrow> carve_directions shuffle depth cx cy ds s')"
      using Cons.prems(1-5) True by (rule carve_directions_carve)
    then obtain s2 where s2: "carve_passages_from shuffle depth ?nx ?ny (?self1, rng) = Inr s2"
      "carve_directions shuffle depth cx cy ds s2 = Inr s'"
      using Cons.prems(6) by (auto split: sum.splits)
    have inv1: "carve_inv h w ?self1" using Cons.prems(1) by (rule carved_inv)
    have nb: "0 \<le> ?nx" "?nx < int w" "0 \<le> ?ny" "?ny < int h"
      using True Cons.prems(1) unfolding carve_inv_def by auto
    have p2: "carve_post h w ?self1 s2" using inv1 nb s2(1) by (rule IH)
    have "carve_post h w (fst s2) s'"
      using Cons.IH[of "fst s2" "snd s2"] p2 Cons.prems(2-5) s2(2)
      unfolding carve_post_def by simp
    moreover have "unvisited (gen_visited ?self1) \<le> unvisited (gen_visited self)"
      using carved_unvisited[OF Cons.prems(1) True] by simp
    moreover have "gen_start ?self1 = gen_start self" "gen_end ?self1 = gen_end self"
      by (simp_all add: carved_def)
    ultimately show ?thesis using p2 unfolding carve_post_def by auto
  qed
qed

lemma carve_passages_from_post:
  "carve_inv h w self \<Longrightarrow> 0 \<le> cx \<Longrightarrow> cx < int w \<Longrightarrow> 0 \<le> cy \<Longrightarrow> cy < int h \<Longrightarrow>
   carve_passages_from shuffle depth cx cy (self, rng) = Inr s' \<Longrightarrow> carve_post h w self s'"
proof (induction depth arbitrary: cx cy self rng s')
  case 0
  then show ?case by simp
next
  case (Suc depth)
  obtain dirs rng1 where sh: "shuffle rng [(0, 2), (2, 0), (0, -2), (-2, 0)] = (dirs, rng1)"
    by (cases "shuffle rng [(0, 2), (2, 0), (0, -2), (-2, 0)]")
  have step: "carve_post h w self' t"
    if "carve_inv h w self'" "0 \<le> cx'" "cx' < int w" "0 \<le> cy'" "cy' < int h"
      "carve_passages_from shuffle depth cx' cy' (self', rng') = Inr t" for cx' cy' self' t and rng' :: 'a
    using that by (rule Suc.IH)
  have "carve_directions shuffle depth cx cy dirs (self, rng1) = Inr s'"
    using Suc.prems(6) sh by simp
  with step Suc.prems(1-5) show ?case by (rule carve_directions_post)
qed

text \<open>
  A carving call returns when the depth available exceeds the number of
  unvisited cells: every nested call is entered with one more cell marked.
\<close>

lemma carve_directions_total:
  assumes IH: "\<And>cx cy self rng.
      carve_inv h w self \<Longrightarrow> 0 \<le> cx \<Longrightarrow> cx < int w \<Longrightarrow> 0 \<le> cy \<Longrightarrow> cy < int h \<Longrightarrow>
      unvisited (gen_visited self) < depth \<Longrightarrow>
      \<exists>s'. carve_passages_from shuffle depth cx cy (self, rng) = Inr s'"
  shows "carve_inv h w self \<Longrightarrow> 0 \<le> cx \<Longrightarrow> cx < int w \<Longrightarrow> 0 \<le> cy \<Longrightarrow> cy < int h \<Longrightarrow>
         unvisited (gen_visited self) \<le> depth \<Longrightarrow>
         \<exists>s'. carve_directions shuffle depth cx cy ds (self, rng) = Inr s'"
proof (induction ds arbitrary: self rng)
  case Nil
  then show ?case by simp
next
  case (Cons d ds)
  let ?nx = "cx + fst d" and ?ny = "cy + snd d"
  let ?guard = "0 \<le> ?nx \<and> ?nx < gen_width self \<and> 0 \<le> ?ny \<and> ?ny < gen_height self \<and>
                \<not> item (gen_visited self) ?ny ?nx"
  show ?case
  proof (cases ?guard)
    case False
    then have "carve_directions shuffle depth cx cy (d # ds) (self, rng) =
               carve_directions shuffle depth cx cy ds (self, rng)"
      by (rule carve_directions_skip)
    then show ?thesis using Cons.IH[OF Cons.prems] by simp
  next
    case True
    let ?self1 = "carved self cx cy d"
    have eq: "carve_directions shuffle depth cx cy (d # ds) (self, rng) =
         (case carve_passages_from shuffle depth ?nx ?ny (?self1, rng) of
            Inl e \<Rightarrow> Inl e
          | Inr s' \<Rightarrow> carve_directions shuffle depth cx cy ds s')"
      using Cons.prems(1-5) True by (rule carve_directions_carve)
    have inv1: "carve_inv h w ?self1" using Cons.prems(1) by (rule carved_inv)
    have nb: "0 \<le> ?nx" "?nx < int w" "0 \<le> ?ny" "?ny < int h"
      using True Cons.prems(1) unfolding carve_inv_def by auto
    have less: "unvisited (gen_visited ?self1) < depth"
      using carved_unvisited[OF Cons.prems(1) True] Cons.prems(6) by simp
    from IH[OF inv1 nb less, of rng]
    obtain s2 where s2: "carve_passages_from shuffle depth ?nx ?ny (?self1, rng) = Inr s2" by blast
    have p2: "carve_post h w ?self1 s2" using inv1 nb s2 by (rule carve_passages_from_post)
    then have "carve_inv h w (fst s2)" "unvisited (gen_visited (fst s2)) \<le> depth"
      using less unfolding carve_post_def by auto
    from Cons.IH[OF this(1) Cons.prems(2-5) this(2), of "snd s2"]
    obtain s3 where "carve_directions shuffle depth cx cy ds s2 = Inr s3" by auto
    then show ?thesis unfolding eq using s2 by simp
  qed
qed

lemma carve_passages_from_total:
  "carve_inv h w self \<Longrightarrow> 0 \<le> cx \<Longrightarrow> cx < int w \<Longrightarrow> 0 \<le> cy \<Longrightarrow> cy < int h \<Longrightarrow>
   unvisited (gen_visited self) < depth \<Longrightarrow>
   \<exists>s'. carve_passages_from shuffle depth cx cy (self, rng) = Inr s'"
proof (induction depth arbitrary: cx cy self rng)
  case 0
  then show ?case by simp
next
  case (Suc depth)
  obtain dirs rng1 where sh: "shuffle rng [(0, 2), (2, 0), (0, -2), (-2, 0)] = (dirs, rng1)"
    by (cases "shuffle rng [(0, 2), (2, 0), (0, -2), (-2, 0)]")
  have le: "unvisited (gen_visited self) \<le> depth" using Suc.prems(6) by simp
  have step: "\<exists>t. carve_passages_from shuffle depth cx' cy' (self', rng') = Inr t"
    if "carve_inv h w self'" "0 \<le> cx'" "cx' < int w" "0 \<le> cy'" "cy' < int h"
      "unvisited (gen_visited self') < depth" for cx' cy' self' and rng' :: 'a
    using that by (rule Suc.IH)
  have "\<exists>s'. carve_directions shuffle depth cx cy dirs (self, rng1) = Inr s'"
    using step Suc.prems(1-5) le by (rule carve_directions_total)
  then show ?case using sh by simp
qed

subsection \<open>Generation\<close>

lemma generate_maze_post:
  assumes gen: "generate_maze seed shuffle limit (self, rng) = Inr (grid, self', rng')"
    and con: "constructed w h self"
  shows "0 < w \<and> 0 < h \<and> item grid 0 0 = 1 \<and> item grid (h - 1) (w - 1) = 1"
proof -
  have f: "gen_width self = w" "gen_height self = h" "gen_start self = (0, 0)" "gen_end self = (h - 1, w - 1)"
    using con unfolding constructed_def by auto
  from gen obtain m0 v0 v1 s1 m1 where
    z1: "np_zeros h w 0 = Inr m0" and z2: "np_zeros h w False = Inr v0"
    and a: "np_set v0 0 0 True = Inr v1"
    and c: "carve_passages_from shuffle limit 0 0 (self\<lparr>gen_maze := m0, gen_visited := v1\<rparr>, seed 42) = Inr s1"
    and b1: "np_set (gen_maze (fst s1)) (fst (gen_start (fst s1))) (snd (gen_start (fst s1))) 1 = Inr m1"
    and b2: "np_set m1 (fst (gen_end (fst s1))) (snd (gen_end (fst s1))) 1 = Inr grid"
    unfolding generate_maze_def f by (auto simp: f split: sum.splits)
  have wf0: "wf_ndarray (nat h) (nat w) m0" "wf_ndarray (nat h) (nat w) v0" and nonneg: "0 \<le> h" "0 \<le> w"
    using np_zeros_wf[OF z1] np_zeros_wf[OF z2] by auto
  have v1: "0 < int (nat h) \<and> 0 < int (nat w) \<and> v1 = put v0 0 0 True"
    using np_set_Inr[OF wf0(2) a] by simp
  then have pos: "0 < h" "0 < w" by (auto split: if_splits)
  let ?self0 = "self\<lparr>gen_maze := m0, gen_visited := v1\<rparr>"
  have inv0: "carve_inv (nat h) (nat w) ?self0"
    unfolding carve_inv_def using f nonneg wf0 v1 by (simp add: wf_ndarray_put)
  have origin: "(0::int) \<le> 0" "0 < int (nat w)" "(0::int) \<le> 0" "0 < int (nat h)"
    using pos by auto
  have "carve_post (nat h) (nat w) ?self0 s1"
    using inv0 origin c by (rule carve_passages_from_post)
  then have inv1: "wf_ndarray (nat h) (nat w) (gen_maze (fst s1))"
    and se: "gen_start (fst s1) = (0, 0)" "gen_end (fst s1) = (h - 1, w - 1)"
    unfolding carve_post_def carve_inv_def using f by auto
  have m1: "m1 = put (gen_maze (fst s1)) 0 0 1"
    using np_set_Inr[OF inv1 b1[unfolded se]] by simp
  have wf1: "wf_ndarray (nat h) (nat w) m1" unfolding m1 using inv1 by (rule wf_ndarray_put)
  have g: "grid = put m1 (h - 1) (w - 1) 1"
    using np_set_Inr[OF wf1 b2[unfolded se]] pos by simp
  have hw: "h - 1 < int (nat h)" "w - 1 < int (nat w)" "0 \<le> h - 1" "0 \<le> w - 1"
    "0 < int (nat h)" "0 < int (nat w)"
    using pos by auto
  have e: "item grid (h - 1) (w - 1) = 1"
    unfolding g using wf1 hw by (subst item_put[where h = "nat h" and w = "nat w"]) auto
  have "item m1 0 0 = 1"
    unfolding m1 using inv1 hw by (subst item_put[where h = "nat h" and w = "nat w"]) auto
  then have "item grid 0 0 = 1"
    unfolding g using wf1 hw by (subst item_put[where h = "nat h" and w = "nat w"]) auto
  then show ?thesis using pos e by simp
qed

lemma generate_maze_total:
  assumes con: "constructed w h self" and pos: "0 < w" "0 < h"
    and lim: "nat w * nat h \<le> limit"
  shows "\<exists>r. generate_maze seed shuffle limit (self, rng) = Inr r"
proof -
  have f: "gen_width self = w" "gen_height self = h" "gen_start self = (0, 0)" "gen_end self = (h - 1, w - 1)"
    using con unfolding constructed_def by auto
  obtain m0 where z1: "np_zeros h w (0::int) = Inr m0" using pos by (simp add: np_zeros_def)
  obtain v0 where z2: "np_zeros h w False = Inr v0" using pos by (simp add: np_zeros_def)
  have wf0: "wf_ndarray (nat h) (nat w) m0" "wf_ndarray (nat h) (nat w) v0"
    using np_zeros_wf[OF z1] np_zeros_wf[OF z2] by auto
  have hw: "h - 1 < int (nat h)" "w - 1 < int (nat w)" "0 \<le> h - 1" "0 \<le> w - 1"
    "0 < int (nat h)" "0 < int (nat w)"
    using pos by auto
  let ?v1 = "put v0 0 0 True"
  have a: "np_set v0 0 0 True = Inr ?v1"
    using wf0(2) hw by (intro np_set_in_bounds) auto
  have "\<not> item v0 0 0" using item_zeros[OF z2, of 0 0] pos by simp
  then have "Suc (unvisited ?v1) = unvisited v0"
    using wf0(2) hw by (intro unvisited_put) auto
  then have less: "unvisited ?v1 < limit"
    using unvisited_zeros[OF z2] lim by (simp add: mult.commute)
  let ?self0 = "self\<lparr>gen_maze := m0, gen_visited := ?v1\<rparr>"
  have inv0: "carve_inv (nat h) (nat w) ?self0"
    unfolding carve_inv_def using f pos wf0 by (simp add: wf_ndarray_put)
  have origin: "(0::int) \<le> 0" "0 < int (nat w)" "(0::int) \<le> 0" "0 < int (nat h)"
    using pos by auto
  have less0: "unvisited (gen_visited ?self0) < limit" using less by simp
  have "\<exists>s'. carve_passages_from shuffle limit 0 0 (?self0, seed 42) = Inr s'"
    using inv0 origin less0 by (rule carve_passages_from_total)
  then obtain s1 where c: "carve_passages_from shuffle limit 0 0 (?self0, seed 42) = Inr s1" by blast
  have "carve_post (nat h) (nat w) ?self0 s1"
    using inv0 origin c by (rule carve_passages_from_post)
  then have inv1: "wf_ndarray (nat h) (nat w) (gen_maze (fst s1))"
    and se: "gen_start (fst s1) = (0, 0)" "gen_end (fst s1) = (h - 1, w - 1)"
    unfolding carve_post_def carve_inv_def using f by auto
  let ?m1 = "put (gen_maze (fst s1)) 0 0 1"
  have b1: "np_set (gen_maze (fst s1)) 0 0 1 = Inr ?m1"
    using inv1 hw by (intro np_set_in_bounds) auto
  have wf1: "wf_ndarray (nat h) (nat w) ?m1" using inv1 by (rule wf_ndarray_put)
  have b2: "np_set ?m1 (h - 1) (w - 1) 1 = Inr (put ?m1 (h - 1) (w - 1) 1)"
    using wf1 hw by (intro np_set_in_bounds) auto
  show ?thesis
    unfolding generate_maze_def by (simp add: f z1 z2 a c se b1 b2)
qed

lemma generate_maze_frame:
  assumes "gen_width a = gen_width b" "gen_height a = gen_height b" "gen_start a = gen_start b" "gen_end a = gen_end b"
  shows "generate_maze seed shuffle limit (a, ra) = generate_maze seed shuffle limit (b, rb)"
proof -
  have "a\<lparr>gen_maze := m, gen_visited := v\<rparr> = b\<lparr>gen_maze := m, gen_visited := v\<rparr>" for m v
    using assms by (intro MazeGenerator.equality) simp_all
  then show ?thesis by (simp only: generate_maze_def fst_conv assms(1,2))
qed

lemma generate_maze_zero:
  assumes "MazeGenerator_init w h = Inr self" "w \<le> 0 \<or> h \<le> 0"
  shows "generate_maze seed shuffle limit (self, rng) = Inl IndexError"
proof -
  have nn: "0 \<le> w" "0 \<le> h" and f: "gen_width self = w" "gen_height self = h"
    using assms(1) by (auto simp: MazeGenerator_init_def np_zeros_def split: if_splits)
  then have "w = 0 \<or> h = 0" using assms(2) by auto
  then show ?thesis
    unfolding generate_maze_def using nn f
    by (auto simp: np_zeros_def np_set_def np_index_def)
qed

lemma MazeGenerator_init_constructed:
  "MazeGenerator_init w h = Inr self \<Longrightarrow> constructed w h self"
  by (auto simp: MazeGenerator_init_def np_zeros_def constructed_def split: if_splits)

section \<open>The claims\<close>

subsection \<open>The solver\<close>

text \<open>
  Claim C1 says that for every start and end inside the grid the number of
  steps of a returned path is the shortest-path length through non-Wall
  cells. That fails when start is a Wall: on the one-row grid of three cells
  whose first cell is a Wall, the search from that cell returns a path of two
  steps, although no route through non-Wall cells begins there, so there is
  no shortest-path length for the two steps to equal.
\<close>

theorem a_star_solve_shortest_counterexample:
  "in_bounds wall_first_solver (0, 0) \<and> in_bounds wall_first_solver (0, 2) \<and>
   a_star_solve wall_first_solver (0, 0) None =
     Some (Inr (Some [(0, 0), (0, 1), (0, 2)]), wall_first_solver) \<and>
   \<not> is_path_cell wall_first_solver (0, 0) \<and>
   \<not> grid_connected wall_first_solver (0, 0) (0, 2)"
proof -
  have wall: "\<not> is_path_cell wall_first_solver (0, 0)" by code_simp
  then have "\<not> grid_connected wall_first_solver (0, 0) (0, 2)"
    unfolding grid_connected_def using grid_route_start by blast
  moreover have "in_bounds wall_first_solver (0, 0) \<and> in_bounds wall_first_solver (0, 2) \<and>
     a_star_solve wall_first_solver (0, 0) None =
       Some (Inr (Some [(0, 0), (0, 1), (0, 2)]), wall_first_solver)"
    by code_simp
  ultimately show ?thesis using wall by simp
qed

text \<open>
  Claim C1, amended. For every grid, every start that is a Path cell of the
  grid and every end cell: whenever \<^verbatim>\<open>a_star_solve\<close> returns a path, the
  number of steps of that path is the shortest-path length between start and
  end over 4-directional unit-cost moves through non-Wall cells. The path is
  a route from start to the goal, it is no longer than any route \<^term>\<open>q\<close> from
  start to the goal, and its number of steps is \<^term>\<open>shortest_length\<close>.
\<close>

theorem a_star_solve_shortest:
  assumes "a_star_solve self start end_arg = Some (Inr (Some path), self')"
    and "is_path_cell self start"
    and "grid_route self start (goal_of self end_arg) q"
  shows "grid_route self start (goal_of self end_arg) path \<and> length path \<le> length q \<and>
         length path - 1 = shortest_length self start (goal_of self end_arg)"
proof -
  have sw: "shortest_walk self start (goal_of self end_arg) path"
    using a_star_solve_correct[of self start end_arg] assms(1) by auto
  show ?thesis
    using shortest_walk_grid_route[OF sw assms(2)] shortest_walk_least[OF sw assms(3)]
      shortest_walk_length[OF sw assms(2)]
    by simp
qed

text \<open>
  On the ring, from the top-left corner to the middle of the bottom row, the
  search returns the route of three steps along the left side, although a
  route of five steps along the right side exists.
\<close>

theorem a_star_solve_shortest_witness:
  "a_star_solve ring_solver (0, 0) (Some (2, 1)) =
     Some (Inr (Some [(0, 0), (1, 0), (2, 0), (2, 1)]), ring_solver) \<and>
   is_path_cell ring_solver (0, 0) \<and>
   grid_route ring_solver (0, 0) (2, 1) [(0, 0), (0, 1), (0, 2), (1, 2), (2, 2), (2, 1)] \<and>
   grid_route ring_solver (0, 0) (2, 1) [(0, 0), (1, 0), (2, 0), (2, 1)] \<and>
   shortest_length ring_solver (0, 0) (2, 1) = 3"
proof -
  have run: "a_star_solve ring_solver (0, 0) (Some (2, 1)) =
     Some (Inr (Some [(0, 0), (1, 0), (2, 0), (2, 1)]), ring_solver)"
    by code_simp
  have st: "is_path_cell ring_solver (0, 0)" by code_simp
  have other: "grid_route ring_solver (0, 0) (goal_of ring_solver (Some (2, 1)))
     [(0, 0), (0, 1), (0, 2), (1, 2), (2, 2), (2, 1)]"
    by code_simp
  show ?thesis
    using a_star_solve_shortest [OF run st other] run st other by (simp add: goal_of_def)
qed

text \<open>
  Claim C2 says that every cell of a returned path is a Path cell. That
  fails for the first cell: on the one-row grid whose first cell is a Wall the
  search from that cell returns a path that begins with it.
\<close>

theorem a_star_solve_path_counterexample:
  "a_star_solve wall_start_solver (0, 0) None = Some (Inr (Some [(0, 0), (0, 1)]), wall_start_solver) \<and>
   item (solver_maze wall_start_solver) 0 0 = 0 \<and>
   \<not> list_all (is_path_cell wall_start_solver) [(0, 0), (0, 1)]"
  by code_simp

text \<open>
  Claim C2, amended. Whenever \<^verbatim>\<open>a_star_solve\<close> returns a path, (a) its first
  element is start, (b) its last element is the goal, (c) every consecutive
  pair of cells is one unit step apart along exactly one axis, and (d) every
  cell after the first is a Path cell inside the grid. The start cell itself
  is never inspected.
\<close>

theorem a_star_solve_path_valid:
  assumes "a_star_solve self start end_arg = Some (Inr (Some path), self')"
  shows "path \<noteq> [] \<and> hd path = start \<and> last path = goal_of self end_arg \<and>
         unit_steps path \<and> list_all (is_path_cell self) (tl path)"
proof -
  have sw: "shortest_walk self start (goal_of self end_arg) path"
    using a_star_solve_correct[of self start end_arg] assms(1) by auto
  then show ?thesis
    unfolding shortest_walk_def by (auto simp: walk_unit_steps list_all_iff passable_iff)
qed

theorem a_star_solve_path_valid_witness:
  "a_star_solve ring_solver (0, 0) None =
     Some (Inr (Some [(0, 0), (0, 1), (0, 2), (1, 2), (2, 2)]), ring_solver) \<and>
   hd [(0, 0), (0, 1), (0, 2), (1, 2), (2, 2)] = ((0, 0) :: cell) \<and>
   last [(0, 0), (0, 1), (0, 2), (1, 2), (2, 2)] = ((2, 2) :: cell) \<and>
   unit_steps [(0, 0), (0, 1), (0, 2), (1, 2), (2, 2)] \<and>
   list_all (is_path_cell ring_solver) [(0, 1), (0, 2), (1, 2), (2, 2)]"
proof -
  have run: "a_star_solve ring_solver (0, 0) None =
     Some (Inr (Some [(0, 0), (0, 1), (0, 2), (1, 2), (2, 2)]), ring_solver)"
    by code_simp
  have g: "goal_of ring_solver None = (2, 2)"
    by (simp add: goal_of_def ring_solver_def MazeSolver_init_def)
  show ?thesis using a_star_solve_path_valid [OF run] run by (simp add: g)
qed

text \<open>
  Claim C3 says that the search returns the absent value whenever end is not
  reachable from start through Path cells. That fails when start is a Wall:
  in the grid of two rows whose top-left cell is a Wall no route through Path
  cells begins at that cell, and the search from it to the bottom-right corner
  returns a path that begins on the Wall.
\<close>

theorem a_star_solve_no_path_counterexample:
  "\<not> grid_connected wall_corner_solver (0, 0) (1, 1) \<and>
   a_star_solve wall_corner_solver (0, 0) None =
     Some (Inr (Some [(0, 0), (0, 1), (1, 1)]), wall_corner_solver)"
proof -
  have "\<not> is_path_cell wall_corner_solver (0, 0)" by code_simp
  then have "\<not> grid_connected wall_corner_solver (0, 0) (1, 1)"
    unfolding grid_connected_def using grid_route_start by blast
  moreover have "a_star_solve wall_corner_solver (0, 0) None =
     Some (Inr (Some [(0, 0), (0, 1), (1, 1)]), wall_corner_solver)"
    by code_simp
  ultimately show ?thesis by simp
qed

text \<open>
  Claim C3, amended. For every grid and every start that is a Path cell of
  the grid: when end is not reachable from start by 4-directional moves
  through Path cells, \<^verbatim>\<open>a_star_solve\<close> ends and returns the absent value. The
  call does not run forever, returns no path, malformed or partial, and raises
  no exception. The only place of the loop that returns the absent value is
  the one where the queue is empty.
\<close>

theorem a_star_solve_no_path:
  assumes "is_path_cell self start"
    and "\<not> grid_connected self start (goal_of self end_arg)"
  shows "a_star_solve self start end_arg = Some (Inr None, self)"
proof -
  obtain r where r: "a_star_solve self start end_arg = Some (Inr r, self)"
    "\<forall>path. r = Some path \<longrightarrow> shortest_walk self start (goal_of self end_arg) path"
    using a_star_solve_correct[of self start end_arg] by blast
  have "r = None"
  proof (cases r)
    case (Some path)
    then have "grid_route self start (goal_of self end_arg) path"
      using r(2) assms(1) by (simp add: shortest_walk_grid_route)
    then show ?thesis using assms(2) unfolding grid_connected_def by blast
  qed simp
  then show ?thesis using r(1) by simp
qed

theorem a_star_solve_no_path_witness:
  "is_path_cell wall_row_solver (0, 0) \<and>
   \<not> grid_connected wall_row_solver (0, 0) (2, 2) \<and>
   a_star_solve wall_row_solver (0, 0) None = Some (Inr None, wall_row_solver)"
proof -
  have g: "goal_of wall_row_solver None = (2, 2)"
    by (simp add: goal_of_def wall_row_solver_def MazeSolver_init_def)
  have st: "is_path_cell wall_row_solver (0, 0)" by code_simp
  have "False" if r: "grid_route wall_row_solver (0, 0) (2, 2) q" for q
  proof -
    obtain cs where q: "q = (0, 0) # cs"
      using r unfolding grid_route_def by (cases q) auto
    have "fst (last ((0, 0) # cs)) = 0"
      using r unfolding grid_route_def q by (intro wall_row_blocked) auto
    then show False using r unfolding grid_route_def q by simp
  qed
  then have un: "\<not> grid_connected wall_row_solver (0, 0) (goal_of wall_row_solver None)"
    unfolding g grid_connected_def by blast
  show ?thesis using a_star_solve_no_path [OF st un] st un by (simp add: g)
qed

text \<open>
  Claim C7 says that a start or end cell outside the grid makes the call
  fail with an error. The solver has no such check: from the cell above the
  single Path cell the search returns a path of two cells.
\<close>

theorem a_star_solve_bounds_counterexample:
  "\<not> in_bounds single_solver (-1, 0) \<and>
   a_star_solve single_solver (-1, 0) None = Some (Inr (Some [(-1, 0), (0, 0)]), single_solver)"
  by code_simp

text \<open>
  Claim C7, amended. When start or end lies outside the grid, the call
  raises no exception: it runs the search and returns a result. When the goal
  lies outside the grid the result is the path of the single cell start if
  start is the goal, and the absent value otherwise.
\<close>

theorem a_star_solve_out_of_bounds:
  assumes "\<not> in_bounds self start \<or> \<not> in_bounds self (goal_of self end_arg)"
  shows "\<exists>r. a_star_solve self start end_arg = Some (Inr r, self) \<and>
             (in_bounds self (goal_of self end_arg) \<or>
              r = (if start = goal_of self end_arg then Some [start] else None))"
proof -
  let ?goal = "goal_of self end_arg"
  obtain r where r: "a_star_solve self start end_arg = Some (Inr r, self)"
    "\<forall>path. r = Some path \<longrightarrow> shortest_walk self start ?goal path"
    using a_star_solve_correct[of self start end_arg] by blast
  have "r = (if start = ?goal then Some [start] else None)" if out: "\<not> in_bounds self ?goal"
  proof (cases r)
    case None
    have "start \<noteq> ?goal"
    proof
      assume "start = ?goal"
      then have "a_star_solve self start end_arg = a_star_solve self start (Some start)"
        by (simp add: a_star_solve_def goal_of_def split: option.splits)
      then show False using r(1) None by (simp add: a_star_solve_same_cell_aux)
    qed
    then show ?thesis using None by simp
  next
    case (Some path)
    then have sw: "shortest_walk self start ?goal path" using r(2) by simp
    then obtain cs where p: "path = start # cs" unfolding shortest_walk_def by (cases path) auto
    have "cs = []"
    proof (rule ccontr)
      assume "cs \<noteq> []"
      then have "last cs \<in> set cs" by (rule last_in_set)
      moreover have "last cs = ?goal"
        using sw p \<open>cs \<noteq> []\<close> unfolding shortest_walk_def by simp
      ultimately have "?goal \<in> set (tl path)" using p by simp
      then have "passable self ?goal" using sw unfolding shortest_walk_def by blast
      then show False using out by (simp add: passable_def in_bounds_def)
    qed
    then show ?thesis using sw p Some unfolding shortest_walk_def by auto
  qed
  then show ?thesis using r(1) by blast
qed

theorem a_star_solve_out_of_bounds_witness:
  "\<not> in_bounds single_solver (7, 7) \<and>
   a_star_solve single_solver (0, 0) (Some (7, 7)) = Some (Inr None, single_solver)"
proof -
  have out: "\<not> in_bounds single_solver (goal_of single_solver (Some (7, 7)))"
    by code_simp
  then have "\<not> in_bounds single_solver (0, 0) \<or> \<not> in_bounds single_solver (goal_of single_solver (Some (7, 7)))"
    by simp
  from a_star_solve_out_of_bounds [OF this] out
  show ?thesis by (auto simp: goal_of_def)
qed

text \<open>
  Claim C9. \<^verbatim>\<open>a_star_solve\<close> never modifies the grid it is given: every call
  ends, and the grid of the solver object after the call is the grid before
  the call, whether a path is found or not.
\<close>

theorem a_star_solve_read_only:
  "\<exists>r self'. a_star_solve self start end_arg = Some (r, self') \<and> solver_maze self' = solver_maze self"
  using a_star_solve_correct[of self start end_arg] by blast

text \<open>
  Claim C10. A call with the same cell as start and end returns the path
  that consists of that cell, whatever the grid holds there.
\<close>

theorem a_star_solve_same_cell:
  "a_star_solve self c (Some c) = Some (Inr (Some [c]), self)"
  by (simp add: a_star_solve_def a_star_loop.simps reconstruct_path.simps)

text \<open>
  In particular when the cell is a Wall.
\<close>

theorem a_star_solve_same_cell_witness:
  "item (solver_maze wall_start_solver) 0 0 = 0 \<and>
   a_star_solve wall_start_solver (0, 0) (Some (0, 0)) = Some (Inr (Some [(0, 0)]), wall_start_solver)"
  using a_star_solve_same_cell [of wall_start_solver "(0, 0)"]
  by (simp add: wall_start_solver_def MazeSolver_init_def item_def)

subsection \<open>The generator\<close>

text \<open>
  Claim C4. After \<^verbatim>\<open>generate_maze\<close> returns, for any width and height, the
  start cell \<^term>\<open>(0::int, 0::int)\<close> and the end cell in the bottom-right
  corner hold 1, the Path state.
\<close>

theorem generate_maze_start_end_path:
  assumes "constructed w h self"
    and "generate_maze seed shuffle limit (self, rng) = Inr (grid, self', rng')"
  shows "item grid 0 0 = 1 \<and> item grid (h - 1) (w - 1) = 1"
  using generate_maze_post[OF assms(2,1)] by simp

text \<open>
  With width 4 the carving never reaches the last column, and the end cell
  is a Path cell all the same.
\<close>

theorem generate_maze_start_end_path_witness:
  "constructed 4 3 fresh_4x3 \<and>
   generate_maze demo_seed demo_shuffle 4 (fresh_4x3, 0) = Inr (carved_4x3, used_4x3, 46) \<and>
   item carved_4x3 0 0 = 1 \<and> item carved_4x3 2 3 = 1"
proof -
  have con: "constructed 4 3 fresh_4x3" by code_simp
  have run: "generate_maze demo_seed demo_shuffle 4 (fresh_4x3, 0) = Inr (carved_4x3, used_4x3, 46)"
    by code_simp
  show ?thesis using generate_maze_start_end_path [OF con run] con run by simp
qed

text \<open>
  Claim C5. Generation is deterministic: two calls on generator objects of
  the same width and height give the same result, whatever the arrays of the
  objects and the random source hold before the call, because each call
  resets the arrays and seeds the random source with the same constant.
\<close>

theorem generate_maze_deterministic:
  assumes "constructed w h a" and "constructed w h b"
  shows "generate_maze seed shuffle limit (a, rng_a) = generate_maze seed shuffle limit (b, rng_b)"
  using assms unfolding constructed_def by (intro generate_maze_frame) simp_all

text \<open>
  A second call on the same object returns the same grid as the first.
\<close>

theorem generate_maze_deterministic_witness:
  "constructed 4 3 fresh_4x3 \<and> constructed 4 3 used_4x3 \<and>
   generate_maze demo_seed demo_shuffle 4 (fresh_4x3, 0) = Inr (carved_4x3, used_4x3, 46) \<and>
   generate_maze demo_seed demo_shuffle 4 (used_4x3, 46) = Inr (carved_4x3, used_4x3, 46)"
proof -
  have a: "constructed 4 3 fresh_4x3" by code_simp
  have b: "constructed 4 3 used_4x3" by code_simp
  have run: "generate_maze demo_seed demo_shuffle 4 (fresh_4x3, 0) = Inr (carved_4x3, used_4x3, 46)"
    by code_simp
  show ?thesis
    using generate_maze_deterministic [OF a b, of demo_seed demo_shuffle 4 0 46] a b run by simp
qed

text \<open>
  Claim C6 says that a non-positive width or height is rejected before any
  work begins. There is no such check: for width 0 the constructor returns an
  object, and the failure is the \<^verbatim>\<open>IndexError\<close> of the first array write in
  \<^verbatim>\<open>generate_maze\<close>.
\<close>

theorem generate_maze_zero_width_counterexample:
  "MazeGenerator_init 0 3 = Inr zero_width \<and>
   generate_maze demo_seed demo_shuffle 4 (zero_width, 0) = Inl IndexError"
  by code_simp

text \<open>
  Claim C6, amended. For a non-positive width or height no grid is
  returned: when a dimension is negative the constructor raises
  \<^verbatim>\<open>ValueError\<close>, and otherwise the constructor returns an object on which
  \<^verbatim>\<open>generate_maze\<close> raises \<^verbatim>\<open>IndexError\<close>.
\<close>

theorem generate_maze_non_positive:
  assumes "w \<le> 0 \<or> h \<le> 0"
  shows "case MazeGenerator_init w h of
           Inl e \<Rightarrow> e = ValueError \<and> (w < 0 \<or> h < 0)
         | Inr self \<Rightarrow> 0 \<le> w \<and> 0 \<le> h \<and>
             generate_maze seed shuffle limit (self, rng) = Inl IndexError"
proof (cases "MazeGenerator_init w h")
  case (Inl e)
  then show ?thesis
    by (auto simp: MazeGenerator_init_def np_zeros_def split: if_splits)
next
  case (Inr self)
  then have "0 \<le> w \<and> 0 \<le> h"
    by (auto simp: MazeGenerator_init_def np_zeros_def split: if_splits)
  then show ?thesis using Inr generate_maze_zero[OF Inr assms] by simp
qed

theorem generate_maze_non_positive_witness:
  "MazeGenerator_init (-2) 3 = Inl ValueError \<and>
   MazeGenerator_init 3 0 =
     Inr \<lparr>gen_width = 3, gen_height = 0, gen_maze = \<lparr>shape = (0, 3), rows = []\<rparr>,
          gen_visited = \<lparr>shape = (0, 3), rows = []\<rparr>, gen_start = (0, 0), gen_end = (-1, 2)\<rparr> \<and>
   generate_maze demo_seed demo_shuffle 4
     (\<lparr>gen_width = 3, gen_height = 0, gen_maze = \<lparr>shape = (0, 3), rows = []\<rparr>,
       gen_visited = \<lparr>shape = (0, 3), rows = []\<rparr>, gen_start = (0, 0), gen_end = (-1, 2)\<rparr>, 0) = Inl IndexError"
proof -
  have neg: "MazeGenerator_init (-2) 3 = Inl ValueError" by code_simp
  have zero: "MazeGenerator_init 3 0 =
     Inr \<lparr>gen_width = 3, gen_height = 0, gen_maze = \<lparr>shape = (0, 3), rows = []\<rparr>,
          gen_visited = \<lparr>shape = (0, 3), rows = []\<rparr>, gen_start = (0, 0), gen_end = (-1, 2)\<rparr>"
    by code_simp
  have "(3::int) \<le> 0 \<or> (0::int) \<le> 0" by simp
  from generate_maze_non_positive [OF this, of demo_seed demo_shuffle 4 0]
  show ?thesis using neg zero by simp
qed

text \<open>
  Claim C8. For every positive width and height the carving ends: the
  constructor returns an object, and with a call depth of at least width
  times height available \<^verbatim>\<open>generate_maze\<close> returns a grid. A cell is marked
  visited before the carving recurses into it, so the depth never exceeds the
  number of cells.
\<close>

theorem generate_maze_terminates:
  assumes "0 < w" and "0 < h" and "nat w * nat h \<le> limit"
  shows "\<exists>self. MazeGenerator_init w h = Inr self \<and>
           (\<exists>grid self' rng'. generate_maze seed shuffle limit (self, rng) = Inr (grid, self', rng'))"
proof -
  obtain self where init: "MazeGenerator_init w h = Inr self"
    using assms(1,2) by (simp add: MazeGenerator_init_def np_zeros_def)
  have "constructed w h self" using init by (rule MazeGenerator_init_constructed)
  then have "\<exists>r. generate_maze seed shuffle limit (self, rng) = Inr r"
    using assms by (rule generate_maze_total)
  then show ?thesis using init by auto
qed

theorem generate_maze_terminates_witness:
  "(0::int) < 4 \<and> (0::int) < 3 \<and> nat 4 * nat 3 \<le> (12::nat) \<and>
   MazeGenerator_init 4 3 = Inr fresh_4x3 \<and>
   generate_maze demo_seed demo_shuffle 12 (fresh_4x3, 0) = Inr (carved_4x3, used_4x3, 46)"
proof -
  have init: "MazeGenerator_init 4 3 = Inr fresh_4x3" by code_simp
  have run: "generate_maze demo_seed demo_shuffle 12 (fresh_4x3, 0) = Inr (carved_4x3, used_4x3, 46)"
    by code_simp
  have "\<exists>self. MazeGenerator_init 4 3 = Inr self \<and>
           (\<exists>grid self' rng'. generate_maze demo_seed demo_shuffle 12 (self, 0::nat) = Inr (grid, self', rng'))"
    by (rule generate_maze_terminates) simp_all
  then show ?thesis using init run by simp
qed

end
